theory Spec2Isabelle
  imports Main "HOL-Library.AList" "HOL-Library.Sublist"
begin

section \<open>JavaScript strings\<close>

text \<open>
  Strings are lists of code units. The model covers the code units 0..255 (the type
  \<^typ>\<open>char\<close>); the frame grammar itself only uses NUL, NL and the colon.
\<close>

definition NUL :: char where
  "NUL = CHR 0x00"

definition NL :: char where
  "NL = CHR 0x0A"

text \<open>
  The characters that \<^verbatim>\<open>String.prototype.trim\<close> strips, as far as they lie in 0..255:
  TAB, LF, VT, FF, CR, SPACE and NBSP.
\<close>

definition is_ws :: "char \<Rightarrow> bool" where
  "is_ws c \<longleftrightarrow> c \<in> {CHR 0x09, CHR 0x0A, CHR 0x0B, CHR 0x0C, CHR 0x0D, CHR 0x20, CHR 0xA0}"

definition trim :: "string \<Rightarrow> string" where
  "trim s = rev (dropWhile is_ws (rev (dropWhile is_ws s)))"

text \<open>
  \<^verbatim>\<open>s.split(sep)\<close> for a non-empty separator \<open>sep\<close> (every call site passes a literal
  one): the pieces between the occurrences of \<open>sep\<close>, found from left to right without
  overlap. The result always has at least one piece.
\<close>

function split :: "string \<Rightarrow> string \<Rightarrow> string list" where
  "split sep [] = [[]]"
| "split sep (x # xs) =
     (if sep \<noteq> [] \<and> take (length sep) (x # xs) = sep
      then [] # split sep (drop (length sep) (x # xs))
      else (case split sep xs of
              [] \<Rightarrow> [[x]]
            | p # ps \<Rightarrow> (x # p) # ps))"
  by pat_completeness auto
termination
  by (relation "measure (\<lambda>(sep, s). length s)") auto

text \<open>\<^verbatim>\<open>parts.join(sep)\<close>.\<close>

fun join :: "string \<Rightarrow> string list \<Rightarrow> string" where
  "join sep [] = []"
| "join sep [p] = p"
| "join sep (p # q # ps) = p @ sep @ join sep (q # ps)"

text \<open>\<^verbatim>\<open>line.indexOf(c)\<close> for a single character: the first position, or -1.\<close>

definition indexOf :: "string \<Rightarrow> char \<Rightarrow> int" where
  "indexOf s c = (if c \<in> set s then int (length (takeWhile (\<lambda>x. x \<noteq> c) s)) else - 1)"

text \<open>\<^verbatim>\<open>s.slice(i, j)\<close> and \<^verbatim>\<open>s.slice(i)\<close> for indices that are not negative.\<close>

definition slice :: "string \<Rightarrow> nat \<Rightarrow> nat \<Rightarrow> string" where
  "slice s i j = take (j - i) (drop i s)"

definition slice_from :: "string \<Rightarrow> nat \<Rightarrow> string" where
  "slice_from s i = drop i s"

section \<open>Frame codec\<close>

record frame =
  command :: string
  headers :: "string \<rightharpoonup> string"
  body :: string

text \<open>
  \<^verbatim>\<open>headers[key] = value\<close> on the plain object \<^verbatim>\<open>{}\<close>. For the key \<^verbatim>\<open>__proto__\<close> the
  assignment reaches the accessor of \<^verbatim>\<open>Object.prototype\<close>, which ignores a string
  value: no property is created.
\<close>

definition set_header :: "(string \<rightharpoonup> string) \<Rightarrow> string \<Rightarrow> string \<Rightarrow> (string \<rightharpoonup> string)" where
  "set_header hs key v = (if key = ''__proto__'' then hs else hs(key \<mapsto> v))"

text \<open>The loop over \<^verbatim>\<open>headerLines\<close> of \<^verbatim>\<open>parseFrames\<close>.\<close>

fun parse_header_lines :: "string list \<Rightarrow> (string \<rightharpoonup> string) \<Rightarrow> (string \<rightharpoonup> string)" where
  "parse_header_lines [] hs = hs"
| "parse_header_lines (line # ls) hs =
     (let separatorIndex = indexOf line (CHR '':'') in
      if separatorIndex = - 1 then parse_header_lines ls hs
      else
        let key = trim (slice line 0 (nat separatorIndex));
            v = trim (slice_from line (nat separatorIndex + 1))
        in parse_header_lines ls (set_header hs key v))"

text \<open>
  The body of the loop over \<^verbatim>\<open>rawFrames\<close>: \<open>None\<close> is \<^verbatim>\<open>continue\<close>, \<open>Some f\<close> is
  \<^verbatim>\<open>frames.push(f)\<close>. \<^verbatim>\<open>parts.shift()\<close> takes the first piece; \<open>split\<close> never returns
  the empty list, so the first case below is not reached.
\<close>

definition parse_raw :: "string \<Rightarrow> frame option" where
  "parse_raw raw =
     (if raw = [] then None
      else if raw = [NL] then None
      else (case split [NL, NL] raw of
              [] \<Rightarrow> None
            | first # parts \<Rightarrow>
                (case filter (\<lambda>l. l \<noteq> []) (split [NL] first) of
                   [] \<Rightarrow> None
                 | commandLine # headerLines \<Rightarrow>
                     (let cmd = trim commandLine in
                      if cmd = [] then None
                      else Some \<lparr>command = cmd,
                                 headers = parse_header_lines headerLines Map.empty,
                                 body = join [NL, NL] parts\<rparr>))))"

definition parseFrames :: "string \<Rightarrow> frame list" where
  "parseFrames chunk =
     (if chunk = [] then []
      else List.map_filter parse_raw (split [NUL] chunk))"

text \<open>
  The string that \<^verbatim>\<open>sendFrame\<close> builds. The headers argument is given by its
  \<^verbatim>\<open>Object.entries\<close>, in iteration order; \<^verbatim>\<open>body || ''\<close> is \<open>body\<close> for a string.
\<close>

definition frame_text :: "string \<Rightarrow> (string \<times> string) list \<Rightarrow> string \<Rightarrow> string" where
  "frame_text cmd hdrs bdy =
     cmd @ [NL] @ concat (map (\<lambda>(key, v). key @ '':'' @ v @ [NL]) hdrs) @ [NL] @ bdy @ [NUL]"

section \<open>Maps and sets of the runtime\<close>

text \<open>
  A JavaScript \<^verbatim>\<open>Map\<close> iterates in insertion order, so it is an association list:
  \<^verbatim>\<open>get\<close> is \<^const>\<open>map_of\<close>, \<^verbatim>\<open>set\<close> is \<^const>\<open>AList.update\<close> (in place for a key that
  is present, at the end otherwise), \<^verbatim>\<open>delete\<close> is \<^const>\<open>AList.delete\<close> and \<^verbatim>\<open>size\<close>
  is \<^const>\<open>length\<close>. The maps stored inside a map are objects that the code mutates
  through a reference; \<^const>\<open>AList.map_entry\<close> writes such a mutation back at the
  position of the key. A \<^verbatim>\<open>Set\<close> is a list in insertion order.
\<close>

definition Set_add :: "'a list \<Rightarrow> 'a \<Rightarrow> 'a list" where
  "Set_add xs x = (if x \<in> set xs then xs else xs @ [x])"

definition Set_delete :: "'a list \<Rightarrow> 'a \<Rightarrow> 'a list" where
  "Set_delete xs x = removeAll x xs"

section \<open>Connections and the shared state\<close>

text \<open>The \<^verbatim>\<open>readyState\<close> of a socket of the transport library.\<close>

datatype ready_state = CONNECTING | OPEN | CLOSING | CLOSED

text \<open>
  The two module-level indices, and what the transport shows of a connection \<open>'c\<close> (an
  opaque handle compared by identity): its ready state and the payloads passed to its
  \<^verbatim>\<open>send\<close>, in call order. \<open>uuid_calls\<close> counts the calls of \<^verbatim>\<open>randomUUID\<close> so far.
\<close>

record 'c world =
  subscriptionsByConn :: "('c \<times> (string \<times> string) list) list"
  subscribersByDestination :: "(string \<times> ('c \<times> string list) list) list"
  readyState :: "'c \<Rightarrow> ready_state"
  sent :: "('c \<times> string) list"
  uuid_calls :: nat

text \<open>
  \<^verbatim>\<open>ws.close()\<close> belongs to the transport library: the socket starts its closing
  handshake, and the close event arrives later, as an event of its own.
\<close>

definition ws_close :: "'c \<Rightarrow> 'c world \<Rightarrow> 'c world" where
  "ws_close ws w =
     w\<lparr>readyState := (readyState w)(ws := (if readyState w ws = CLOSED then CLOSED else CLOSING))\<rparr>"

subsection \<open>Native WebSocket binding: sending\<close>

definition sendFrame :: "'c \<Rightarrow> string \<Rightarrow> (string \<times> string) list \<Rightarrow> string \<Rightarrow> 'c world \<Rightarrow> 'c world" where
  "sendFrame ws cmd hdrs bdy w =
     (let frame = frame_text cmd hdrs bdy in
      if readyState w ws = OPEN then w\<lparr>sent := sent w @ [(ws, frame)]\<rparr> else w)"

subsection \<open>Subscription registry\<close>

text \<open>
  \<^verbatim>\<open>addSubscription\<close>, \<^verbatim>\<open>removeSubscription\<close> and \<^verbatim>\<open>cleanupConnection\<close> are the same text
  in both bindings, up to the name of the connection parameter.
\<close>

definition addSubscription :: "'c \<Rightarrow> string \<Rightarrow> string \<Rightarrow> 'c world \<Rightarrow> 'c world" where
  "addSubscription ws subId destination w =
     (let byConn = subscriptionsByConn w;
          byConn = (if map_of byConn ws = None then AList.update ws [] byConn else byConn);
          byConn = AList.map_entry ws (AList.update subId destination) byConn;
          byDest = subscribersByDestination w;
          byDest = (if map_of byDest destination = None
                    then AList.update destination [] byDest else byDest);
          byDest = AList.map_entry destination
                     (\<lambda>destinationSubscribers.
                        let subscribers =
                              (if map_of destinationSubscribers ws = None
                               then AList.update ws [] destinationSubscribers
                               else destinationSubscribers)
                        in AList.map_entry ws (\<lambda>subIds. Set_add subIds subId) subscribers)
                     byDest
      in w\<lparr>subscriptionsByConn := byConn, subscribersByDestination := byDest\<rparr>)"

text \<open>
  What one removal does to the destination index: drop \<open>subId\<close> from the set of \<open>ws\<close>,
  drop \<open>ws\<close> when its set is empty.
\<close>

definition drop_subscriber :: "'c \<Rightarrow> string \<Rightarrow> ('c \<times> string list) list \<Rightarrow> string list \<Rightarrow> ('c \<times> string list) list" where
  "drop_subscriber ws subId destinationSubscribers subSet =
     (let subSet = Set_delete subSet subId;
          destinationSubscribers = AList.map_entry ws (\<lambda>_. subSet) destinationSubscribers
      in if length subSet = 0 then AList.delete ws destinationSubscribers
         else destinationSubscribers)"

text \<open>Write the mutated inner map back, and drop the destination when it is empty.\<close>

definition prune_destination ::
  "string \<Rightarrow> ('c \<times> string list) list \<Rightarrow> (string \<times> ('c \<times> string list) list) list
     \<Rightarrow> (string \<times> ('c \<times> string list) list) list" where
  "prune_destination destination destinationSubscribers byDest =
     (let byDest = AList.map_entry destination (\<lambda>_. destinationSubscribers) byDest
      in if length destinationSubscribers = 0 then AList.delete destination byDest
         else byDest)"

definition removeSubscription :: "'c \<Rightarrow> string \<Rightarrow> 'c world \<Rightarrow> 'c world" where
  "removeSubscription ws subId w =
     (case map_of (subscriptionsByConn w) ws of
        None \<Rightarrow> w
      | Some connSubs \<Rightarrow>
          (case map_of connSubs subId of
             None \<Rightarrow> w
           | Some destination \<Rightarrow>
               if destination = [] then w
               else
                 let connSubs' = AList.delete subId connSubs;
                     byConn = AList.map_entry ws (\<lambda>_. connSubs') (subscriptionsByConn w);
                     byConn = (if length connSubs' = 0 then AList.delete ws byConn else byConn);
                     w = w\<lparr>subscriptionsByConn := byConn\<rparr>
                 in (case map_of (subscribersByDestination w) destination of
                       None \<Rightarrow> w
                     | Some destinationSubscribers \<Rightarrow>
                         (case map_of destinationSubscribers ws of
                            None \<Rightarrow> w
                          | Some subSet \<Rightarrow>
                              w\<lparr>subscribersByDestination :=
                                  prune_destination destination
                                    (drop_subscriber ws subId destinationSubscribers subSet)
                                    (subscribersByDestination w)\<rparr>))))"

text \<open>The loop of \<^verbatim>\<open>cleanupConnection\<close> over \<^verbatim>\<open>connSubs.entries()\<close>.\<close>

fun cleanup_entries ::
  "'c \<Rightarrow> (string \<times> string) list \<Rightarrow> (string \<times> ('c \<times> string list) list) list
     \<Rightarrow> (string \<times> ('c \<times> string list) list) list" where
  "cleanup_entries ws [] byDest = byDest"
| "cleanup_entries ws ((subId, destination) # entries) byDest =
     (case map_of byDest destination of
        None \<Rightarrow> cleanup_entries ws entries byDest
      | Some destinationSubscribers \<Rightarrow>
          (let destinationSubscribers =
                 (case map_of destinationSubscribers ws of
                    None \<Rightarrow> destinationSubscribers
                  | Some subSet \<Rightarrow> drop_subscriber ws subId destinationSubscribers subSet)
           in cleanup_entries ws entries
                (prune_destination destination destinationSubscribers byDest)))"

definition cleanupConnection :: "'c \<Rightarrow> 'c world \<Rightarrow> 'c world" where
  "cleanupConnection ws w =
     (case map_of (subscriptionsByConn w) ws of
        None \<Rightarrow> w
      | Some connSubs \<Rightarrow>
          w\<lparr>subscribersByDestination := cleanup_entries ws connSubs (subscribersByDestination w),
            subscriptionsByConn := AList.delete ws (subscriptionsByConn w)\<rparr>)"

subsection \<open>Native WebSocket binding: broadcast and dispatch\<close>

text \<open>
  \<^verbatim>\<open>randomUUID\<close> comes from the runtime; \<open>randomUUID n\<close> stands for the value its call
  number \<open>n\<close> returns.
\<close>

fun broadcast_subIds :: "(nat \<Rightarrow> string) \<Rightarrow> 'c \<Rightarrow> string \<Rightarrow> string \<Rightarrow> string list \<Rightarrow> 'c world \<Rightarrow> 'c world" where
  "broadcast_subIds randomUUID ws destination bdy [] w = w"
| "broadcast_subIds randomUUID ws destination bdy (subId # subIds) w =
     (let messageId = randomUUID (uuid_calls w);
          w = w\<lparr>uuid_calls := Suc (uuid_calls w)\<rparr>;
          w = sendFrame ws ''MESSAGE''
                [(''subscription'', subId), (''destination'', destination), (''message-id'', messageId)]
                bdy w
      in broadcast_subIds randomUUID ws destination bdy subIds w)"

fun broadcast_entries ::
  "(nat \<Rightarrow> string) \<Rightarrow> string \<Rightarrow> string \<Rightarrow> ('c \<times> string list) list \<Rightarrow> 'c world \<Rightarrow> 'c world" where
  "broadcast_entries randomUUID destination bdy [] w = w"
| "broadcast_entries randomUUID destination bdy ((ws, subIds) # entries) w =
     (let w = (if readyState w ws = OPEN
               then broadcast_subIds randomUUID ws destination bdy subIds w
               else w)
      in broadcast_entries randomUUID destination bdy entries w)"

definition broadcast :: "(nat \<Rightarrow> string) \<Rightarrow> string \<Rightarrow> string \<Rightarrow> 'c world \<Rightarrow> 'c world" where
  "broadcast randomUUID destination bdy w =
     (case map_of (subscribersByDestination w) destination of
        None \<Rightarrow> w
      | Some destinationSubscribers \<Rightarrow>
          broadcast_entries randomUUID destination bdy destinationSubscribers w)"

text \<open>A header read by destructuring is falsy when it is absent or the empty string.\<close>

definition falsy :: "string option \<Rightarrow> bool" where
  "falsy v \<longleftrightarrow> v = None \<or> v = Some []"

definition handleFrame :: "(nat \<Rightarrow> string) \<Rightarrow> 'c \<Rightarrow> frame \<Rightarrow> 'c world \<Rightarrow> 'c world" where
  "handleFrame randomUUID ws frame w =
     (if command frame = ''CONNECT'' \<or> command frame = ''STOMP'' then
        sendFrame ws ''CONNECTED'' [(''version'', ''1.2'')] [] w
      else if command frame = ''SUBSCRIBE'' then
        (case (headers frame ''id'', headers frame ''destination'') of
           (Some subId, Some destination) \<Rightarrow>
             if subId = [] \<or> destination = [] then
               sendFrame ws ''ERROR'' [(''message'', ''Subscription requires id and destination'')]
                 ''Missing id or destination header'' w
             else addSubscription ws subId destination w
         | _ \<Rightarrow>
             sendFrame ws ''ERROR'' [(''message'', ''Subscription requires id and destination'')]
               ''Missing id or destination header'' w)
      else if command frame = ''UNSUBSCRIBE'' then
        (case headers frame ''id'' of
           None \<Rightarrow> w
         | Some subId \<Rightarrow> if subId = [] then w else removeSubscription ws subId w)
      else if command frame = ''SEND'' then
        (case headers frame ''destination'' of
           None \<Rightarrow> w
         | Some destination \<Rightarrow>
             if destination = [] then w else broadcast randomUUID destination (body frame) w)
      else if command frame = ''DISCONNECT'' then
        ws_close ws (cleanupConnection ws w)
      else w)"

text \<open>The message handler of a connection: decode the chunk, dispatch each frame in order.\<close>

definition on_message :: "(nat \<Rightarrow> string) \<Rightarrow> 'c \<Rightarrow> string \<Rightarrow> 'c world \<Rightarrow> 'c world" where
  "on_message randomUUID ws message w =
     fold (handleFrame randomUUID ws) (parseFrames message) w"

text \<open>The close handler of a connection.\<close>

definition on_close :: "'c \<Rightarrow> 'c world \<Rightarrow> 'c world" where
  "on_close ws w = cleanupConnection ws w"

subsection \<open>SockJS binding\<close>

text \<open>
  The connection of this binding is an object with \<^verbatim>\<open>send\<close> and \<^verbatim>\<open>close\<close> only;
  \<open>sent\<close> records the calls of \<^verbatim>\<open>conn.send\<close>.
\<close>

definition sendFrame_sockjs :: "'c \<Rightarrow> string \<Rightarrow> (string \<times> string) list \<Rightarrow> string \<Rightarrow> 'c world \<Rightarrow> 'c world" where
  "sendFrame_sockjs conn cmd hdrs bdy w =
     (let frame = frame_text cmd hdrs bdy in w\<lparr>sent := sent w @ [(conn, frame)]\<rparr>)"

fun broadcast_subIds_sockjs :: "(nat \<Rightarrow> string) \<Rightarrow> 'c \<Rightarrow> string \<Rightarrow> string \<Rightarrow> string list \<Rightarrow> 'c world \<Rightarrow> 'c world" where
  "broadcast_subIds_sockjs randomUUID conn destination bdy [] w = w"
| "broadcast_subIds_sockjs randomUUID conn destination bdy (subId # subIds) w =
     (let messageId = randomUUID (uuid_calls w);
          w = w\<lparr>uuid_calls := Suc (uuid_calls w)\<rparr>;
          w = sendFrame_sockjs conn ''MESSAGE''
                [(''subscription'', subId), (''destination'', destination), (''message-id'', messageId)]
                bdy w
      in broadcast_subIds_sockjs randomUUID conn destination bdy subIds w)"

fun broadcast_entries_sockjs ::
  "(nat \<Rightarrow> string) \<Rightarrow> string \<Rightarrow> string \<Rightarrow> ('c \<times> string list) list \<Rightarrow> 'c world \<Rightarrow> 'c world" where
  "broadcast_entries_sockjs randomUUID destination bdy [] w = w"
| "broadcast_entries_sockjs randomUUID destination bdy ((conn, subIds) # entries) w =
     broadcast_entries_sockjs randomUUID destination bdy entries
       (broadcast_subIds_sockjs randomUUID conn destination bdy subIds w)"

definition broadcast_sockjs :: "(nat \<Rightarrow> string) \<Rightarrow> string \<Rightarrow> string \<Rightarrow> 'c world \<Rightarrow> 'c world" where
  "broadcast_sockjs randomUUID destination bdy w =
     (case map_of (subscribersByDestination w) destination of
        None \<Rightarrow> w
      | Some destinationSubscribers \<Rightarrow>
          broadcast_entries_sockjs randomUUID destination bdy destinationSubscribers w)"

definition parseFrames_sockjs :: "string \<Rightarrow> frame list" where
  "parseFrames_sockjs chunk =
     (if chunk = [] then []
      else List.map_filter parse_raw (split [NUL] chunk))"

definition handleFrame_sockjs :: "(nat \<Rightarrow> string) \<Rightarrow> 'c \<Rightarrow> frame \<Rightarrow> 'c world \<Rightarrow> 'c world" where
  "handleFrame_sockjs randomUUID conn frame w =
     (if command frame = ''CONNECT'' \<or> command frame = ''STOMP'' then
        sendFrame_sockjs conn ''CONNECTED'' [(''version'', ''1.2'')] [] w
      else if command frame = ''SUBSCRIBE'' then
        (case (headers frame ''id'', headers frame ''destination'') of
           (Some subId, Some destination) \<Rightarrow>
             if subId = [] \<or> destination = [] then
               sendFrame_sockjs conn ''ERROR''
                 [(''message'', ''Subscription requires id and destination'')]
                 ''Missing id or destination header'' w
             else addSubscription conn subId destination w
         | _ \<Rightarrow>
             sendFrame_sockjs conn ''ERROR''
               [(''message'', ''Subscription requires id and destination'')]
               ''Missing id or destination header'' w)
      else if command frame = ''UNSUBSCRIBE'' then
        (case headers frame ''id'' of
           None \<Rightarrow> w
         | Some subId \<Rightarrow> if subId = [] then w else removeSubscription conn subId w)
      else if command frame = ''SEND'' then
        (case headers frame ''destination'' of
           None \<Rightarrow> w
         | Some destination \<Rightarrow>
             if destination = [] then w
             else broadcast_sockjs randomUUID destination (body frame) w)
      else if command frame = ''DISCONNECT'' then
        ws_close conn (cleanupConnection conn w)
      else w)"

text \<open>
  \<^verbatim>\<open>registerConnection\<close> enters the new connection into the connection index with an
  empty map, before any frame arrives.
\<close>

definition registerConnection :: "'c \<Rightarrow> 'c world \<Rightarrow> 'c world" where
  "registerConnection conn w =
     w\<lparr>subscriptionsByConn := AList.update conn [] (subscriptionsByConn w)\<rparr>"

definition on_data_sockjs :: "(nat \<Rightarrow> string) \<Rightarrow> 'c \<Rightarrow> string \<Rightarrow> 'c world \<Rightarrow> 'c world" where
  "on_data_sockjs randomUUID conn chunk w =
     fold (handleFrame_sockjs randomUUID conn) (parseFrames_sockjs chunk) w"

definition on_close_sockjs :: "'c \<Rightarrow> 'c world \<Rightarrow> 'c world" where
  "on_close_sockjs conn w = cleanupConnection conn w"

section \<open>Registry invariants\<close>

text \<open>An operation of the registry, and a run of operations from the empty indices.\<close>

datatype 'c registry_op =
  AddSubscription 'c string string
| RemoveSubscription 'c string
| RemoveAllForConnection 'c

fun apply_op :: "'c registry_op \<Rightarrow> 'c world \<Rightarrow> 'c world" where
  "apply_op (AddSubscription ws subId destination) w = addSubscription ws subId destination w"
| "apply_op (RemoveSubscription ws subId) w = removeSubscription ws subId w"
| "apply_op (RemoveAllForConnection ws) w = cleanupConnection ws w"

definition empty_world :: "('c \<Rightarrow> ready_state) \<Rightarrow> 'c world" where
  "empty_world rs =
     \<lparr>subscriptionsByConn = [], subscribersByDestination = [], readyState = rs,
      sent = [], uuid_calls = 0\<rparr>"

definition run_ops :: "'c registry_op list \<Rightarrow> 'c world \<Rightarrow> 'c world" where
  "run_ops ops w = fold apply_op ops w"

text \<open>
  The subscription ids that a destination index lists for a destination and a
  connection.
\<close>

definition subIds_of :: "(string \<times> ('c \<times> string list) list) list \<Rightarrow> string \<Rightarrow> 'c \<Rightarrow> string list" where
  "subIds_of byDest destination ws =
     (case map_of byDest destination of
        None \<Rightarrow> []
      | Some destinationSubscribers \<Rightarrow>
          (case map_of destinationSubscribers ws of None \<Rightarrow> [] | Some subIds \<Rightarrow> subIds))"

text \<open>The destination that the connection index holds for a connection and an id.\<close>

definition destination_of :: "'c world \<Rightarrow> 'c \<Rightarrow> string \<Rightarrow> string option" where
  "destination_of w ws subId =
     (case map_of (subscriptionsByConn w) ws of
        None \<Rightarrow> None
      | Some connSubs \<Rightarrow> map_of connSubs subId)"

text \<open>I1, from the connection index to the destination index.\<close>

definition I1_forward :: "'c world \<Rightarrow> bool" where
  "I1_forward w \<longleftrightarrow>
     (\<forall>(ws, connSubs) \<in> set (subscriptionsByConn w).
        \<forall>(subId, destination) \<in> set connSubs. subId \<in> set (subIds_of (subscribersByDestination w) destination ws))"

text \<open>I1, from the destination index back to the connection index.\<close>

definition I1_backward :: "'c world \<Rightarrow> bool" where
  "I1_backward w \<longleftrightarrow>
     (\<forall>(destination, destinationSubscribers) \<in> set (subscribersByDestination w).
        \<forall>(ws, subIds) \<in> set destinationSubscribers.
          \<forall>subId \<in> set subIds. destination_of w ws subId = Some destination)"

text \<open>I2: a destination key has at least one pair of a connection and an id.\<close>

definition I2 :: "'c world \<Rightarrow> bool" where
  "I2 w \<longleftrightarrow>
     (\<forall>(destination, destinationSubscribers) \<in> set (subscribersByDestination w).
        \<exists>(ws, subIds) \<in> set destinationSubscribers. subIds \<noteq> [])"

text \<open>I3: a connection key has at least one subscription.\<close>

definition I3 :: "'c world \<Rightarrow> bool" where
  "I3 w \<longleftrightarrow> (\<forall>(ws, connSubs) \<in> set (subscriptionsByConn w). connSubs \<noteq> [])"

text \<open>
  The representation invariant of the runtime's maps and sets: no key and no element
  occurs twice.
\<close>

definition well_formed :: "'c world \<Rightarrow> bool" where
  "well_formed w \<longleftrightarrow>
     distinct (map fst (subscriptionsByConn w)) \<and>
     (\<forall>(ws, connSubs) \<in> set (subscriptionsByConn w). distinct (map fst connSubs)) \<and>
     distinct (map fst (subscribersByDestination w)) \<and>
     (\<forall>(destination, destinationSubscribers) \<in> set (subscribersByDestination w).
        distinct (map fst destinationSubscribers) \<and>
        (\<forall>(ws, subIds) \<in> set destinationSubscribers. distinct subIds))"

section \<open>Vocabulary for the broadcast properties\<close>

text \<open>
  The pairs of a connection and a subscription id registered for a destination, in the
  order in which \<^verbatim>\<open>broadcast\<close> iterates over them.
\<close>

definition pairs_of :: "'c world \<Rightarrow> string \<Rightarrow> ('c \<times> string) list" where
  "pairs_of w destination =
     (case map_of (subscribersByDestination w) destination of
        None \<Rightarrow> []
      | Some destinationSubscribers \<Rightarrow>
          concat (map (\<lambda>(ws, subIds). map (Pair ws) subIds) destinationSubscribers))"

definition open_pairs :: "'c world \<Rightarrow> string \<Rightarrow> ('c \<times> string) list" where
  "open_pairs w destination =
     filter (\<lambda>(ws, subId). readyState w ws = OPEN) (pairs_of w destination)"

text \<open>
  One \<^verbatim>\<open>MESSAGE\<close> frame per pair, the pairs numbered from \<open>n\<close> on and the identifier of
  pair number \<open>i\<close> being \<open>randomUUID i\<close>.
\<close>

definition stamped ::
  "(nat \<Rightarrow> string) \<Rightarrow> string \<Rightarrow> string \<Rightarrow> nat \<Rightarrow> ('c \<times> string) list \<Rightarrow> ('c \<times> string) list" where
  "stamped randomUUID destination bdy n pairs =
     map (\<lambda>(i, ws, subId).
            (ws, frame_text ''MESSAGE''
                   [(''subscription'', subId), (''destination'', destination),
                    (''message-id'', randomUUID i)] bdy))
       (enumerate n pairs)"

text \<open>Every connection that the destination index lists has an open transport.\<close>

definition subscribers_open :: "'c world \<Rightarrow> bool" where
  "subscribers_open w \<longleftrightarrow>
     (\<forall>(destination, destinationSubscribers) \<in> set (subscribersByDestination w).
        \<forall>(ws, subIds) \<in> set destinationSubscribers. readyState w ws = OPEN)"

section \<open>Vocabulary for the codec properties\<close>

text \<open>The line that \<^verbatim>\<open>sendFrame\<close> writes for one header, without its newline.\<close>

definition header_line :: "string \<times> string \<Rightarrow> string" where
  "header_line = (\<lambda>(key, v). key @ '':'' @ v)"

text \<open>No two adjacent newlines, and no newline at the end.\<close>

fun no_blank_line :: "string \<Rightarrow> bool" where
  "no_blank_line [] = True"
| "no_blank_line [x] = (x \<noteq> NL)"
| "no_blank_line (x # y # zs) = (\<not> (x = NL \<and> y = NL) \<and> no_blank_line (y # zs))"

text \<open>No two adjacent newlines.\<close>

fun no_adjacent_NL :: "string \<Rightarrow> bool" where
  "no_adjacent_NL (x # y # zs) = (\<not> (x = NL \<and> y = NL) \<and> no_adjacent_NL (y # zs))"
| "no_adjacent_NL _ = True"

text \<open>
  What \<^verbatim>\<open>parseFrames\<close> makes of the lines before the first blank line and of a body:
  the steps of \<open>parse_raw\<close> after the two splits.
\<close>

definition decode_lines :: "string list \<Rightarrow> string \<Rightarrow> frame option" where
  "decode_lines ls bdy =
     (case filter (\<lambda>l. l \<noteq> []) ls of
        [] \<Rightarrow> None
      | commandLine # headerLines \<Rightarrow>
          (let cmd = trim commandLine in
           if cmd = [] then None
           else Some \<lparr>command = cmd,
                      headers = parse_header_lines headerLines Map.empty,
                      body = bdy\<rparr>))"

text \<open>
  The arguments of an encoded frame that \<^verbatim>\<open>parseFrames\<close> returns unchanged: a trimmed
  command, trimmed keys and values, distinct keys (as the entries of an object are).
\<close>

definition canonical_frame :: "string \<Rightarrow> (string \<times> string) list \<Rightarrow> string \<Rightarrow> bool" where
  "canonical_frame c h b \<longleftrightarrow>
     trim c = c \<and> c \<noteq> [] \<and> NL \<notin> set c \<and> NUL \<notin> set c \<and>
     (\<forall>(k, v) \<in> set h. trim k = k \<and> trim v = v \<and> NL \<notin> set k \<and> NUL \<notin> set k \<and>
        CHR '':'' \<notin> set k \<and> k \<noteq> ''__proto__'' \<and> NL \<notin> set v \<and> NUL \<notin> set v) \<and>
     distinct (map fst h) \<and> NUL \<notin> set b"

section \<open>Vocabulary for the invariant proofs\<close>

text \<open>
  I1 in terms of lookups: the connection index maps a connection and an id to a
  destination exactly when the destination index lists the id for that destination and
  connection.
\<close>

definition linked :: "'c world \<Rightarrow> bool" where
  "linked w \<longleftrightarrow>
     (\<forall>c s d. destination_of w c s = Some d
        \<longleftrightarrow> s \<in> set (subIds_of (subscribersByDestination w) d c))"

text \<open>
  The connection index has no key twice and no empty map (I3); the destination index has
  no key twice, no empty map (I2) and no empty set.
\<close>

definition conn_ok :: "('c \<times> (string \<times> string) list) list \<Rightarrow> bool" where
  "conn_ok byConn \<longleftrightarrow>
     distinct (map fst byConn) \<and>
     (\<forall>c m. map_of byConn c = Some m \<longrightarrow> m \<noteq> [] \<and> distinct (map fst m))"

definition subscribers_ok :: "('c \<times> string list) list \<Rightarrow> bool" where
  "subscribers_ok dm \<longleftrightarrow>
     dm \<noteq> [] \<and> distinct (map fst dm) \<and>
     (\<forall>c ss. map_of dm c = Some ss \<longrightarrow> ss \<noteq> [] \<and> distinct ss)"

definition dest_ok :: "(string \<times> ('c \<times> string list) list) list \<Rightarrow> bool" where
  "dest_ok byDest \<longleftrightarrow>
     distinct (map fst byDest) \<and>
     (\<forall>d dm. map_of byDest d = Some dm \<longrightarrow> subscribers_ok dm)"

definition consistent :: "'c world \<Rightarrow> bool" where
  "consistent w \<longleftrightarrow>
     conn_ok (subscriptionsByConn w) \<and> dest_ok (subscribersByDestination w) \<and> linked w"

text \<open>
  An operation that does not subscribe an id which its connection holds for another
  destination, and a run of such operations.
\<close>

fun conflict_free :: "'c registry_op \<Rightarrow> 'c world \<Rightarrow> bool" where
  "conflict_free (AddSubscription ws subId destination) w =
     (destination_of w ws subId = None \<or> destination_of w ws subId = Some destination)"
| "conflict_free _ w = True"

fun run_conflict_free :: "'c registry_op list \<Rightarrow> 'c world \<Rightarrow> bool" where
  "run_conflict_free [] w = True"
| "run_conflict_free (x # ops) w = (conflict_free x w \<and> run_conflict_free ops (apply_op x w))"

section \<open>Properties of the registry\<close>

text \<open>
  C1: re-subscribing an id of a connection to a second destination is claimed to remove
  the pair from the entry of the first destination. Evaluated on the code: after
  subscribing connection 0 with id \<open>s\<close> to \<open>d1\<close> and then to \<open>d2\<close>, the connection
  index maps \<open>s\<close> to \<open>d2\<close>, while the entry of \<open>d1\<close> still lists \<open>s\<close> for the
  connection.
\<close>

theorem resubscribe_leaves_old_entry:
  "(let w = addSubscription (0::nat) ''s'' ''d2''
              (addSubscription 0 ''s'' ''d1'' (empty_world (\<lambda>_. OPEN)))
    in destination_of w 0 ''s'' = Some ''d2''
       \<and> subIds_of (subscribersByDestination w) ''d1'' 0 = [''s''])"
  by code_simp

text \<open>
  C2: I1 to I3 are claimed to hold after every run of registry operations from the empty
  indices. Evaluated on the code: the run that subscribes connection 0 with id \<open>s\<close> to
  \<open>d1\<close> and then to \<open>d2\<close> ends in a state where the destination index links
  \<open>d1\<close> to the pair, and the connection index links the pair to \<open>d2\<close> only.
\<close>

theorem resubscribe_run_breaks_I1:
  "(let w = run_ops [AddSubscription (0::nat) ''s'' ''d1'', AddSubscription 0 ''s'' ''d2'']
              (empty_world (\<lambda>_. OPEN))
    in subscriptionsByConn w = [(0, [(''s'', ''d2'')])]
       \<and> subscribersByDestination w = [(''d1'', [(0, [''s''])]), (''d2'', [(0, [''s''])])]
       \<and> ''s'' \<in> set (subIds_of (subscribersByDestination w) ''d1'' 0)
       \<and> destination_of w 0 ''s'' \<noteq> Some ''d1'')"
  by code_simp

text \<open>In the terms of the invariants: the run keeps I2, I3 and the forward half of I1.\<close>

lemma resubscribe_run_invariants:
  "(let w = run_ops [AddSubscription (0::nat) ''s'' ''d1'', AddSubscription 0 ''s'' ''d2'']
              (empty_world (\<lambda>_. OPEN))
    in \<not> I1_backward w \<and> I1_forward w \<and> I2 w \<and> I3 w)"
  by code_simp

lemma map_of_prune_destination:
  "map_of (prune_destination d0 dm' byDest) =
     (if map_of byDest d0 = None \<or> dm' = [] then (map_of byDest)(d0 := None)
      else (map_of byDest)(d0 \<mapsto> dm'))"
  by (auto simp: prune_destination_def Let_def map_of_map_entry delete_conv' fun_eq_iff
           split: option.splits)

lemma subIds_of_prune:
  "subIds_of (prune_destination d0 dm' byDest) d c =
     (if d = d0
      then (case map_of byDest d0 of
              None \<Rightarrow> []
            | Some dm \<Rightarrow> (case map_of dm' c of None \<Rightarrow> [] | Some ss \<Rightarrow> ss))
      else subIds_of byDest d c)"
  by (simp add: subIds_of_def map_of_prune_destination split: option.splits)

lemma map_of_drop_subscriber:
  "map_of dm ws = Some ss \<Longrightarrow>
   map_of (drop_subscriber ws s dm ss) =
     (if removeAll s ss = [] then (map_of dm)(ws := None)
      else (map_of dm)(ws \<mapsto> removeAll s ss))"
  by (auto simp: drop_subscriber_def Set_delete_def Let_def map_of_map_entry delete_conv'
                 fun_eq_iff)

lemma subIds_drop_subscriber:
  "map_of dm ws = Some ss \<Longrightarrow>
   (case map_of (drop_subscriber ws s dm ss) c of None \<Rightarrow> [] | Some x \<Rightarrow> x) =
     (if c = ws then removeAll s ss else (case map_of dm c of None \<Rightarrow> [] | Some x \<Rightarrow> x))"
  by (simp add: map_of_drop_subscriber)

lemma subIds_of_cleanup_entries:
  "subIds_of (cleanup_entries ws entries byDest) d c =
     (if c = ws then filter (\<lambda>s. (s, d) \<notin> set entries) (subIds_of byDest d ws)
      else subIds_of byDest d c)"
proof (induction entries arbitrary: byDest)
  case Nil
  then show ?case by simp
next
  case (Cons e entries)
  obtain s0 d0 where e: "e = (s0, d0)" by (cases e)
  show ?case
  proof (cases "map_of byDest d0")
    case None
    then have "subIds_of byDest d0 ws = []" by (simp add: subIds_of_def)
    then have "filter (\<lambda>s. (s, d) \<notin> set (e # entries)) (subIds_of byDest d ws)
                 = filter (\<lambda>s. (s, d) \<notin> set entries) (subIds_of byDest d ws)"
      by (cases "d = d0") (auto simp: e intro: filter_cong)
    then show ?thesis
      using None by (simp add: e Cons.IH)
  next
    case (Some dm)
    show ?thesis
    proof (cases "map_of dm ws")
      case None
      have same: "subIds_of (prune_destination d0 dm byDest) d' c' = subIds_of byDest d' c'" for d' c'
        using Some by (simp add: subIds_of_prune) (simp add: subIds_of_def)
      have "subIds_of byDest d0 ws = []"
        using Some None by (simp add: subIds_of_def)
      then have "filter (\<lambda>s. (s, d) \<notin> set (e # entries)) (subIds_of byDest d ws)
                 = filter (\<lambda>s. (s, d) \<notin> set entries) (subIds_of byDest d ws)"
        by (cases "d = d0") (auto simp: e intro: filter_cong)
      then show ?thesis
        using Some None by (simp add: e Cons.IH same)
    next
      case inner: (Some ss)
      let ?byDest' = "prune_destination d0 (drop_subscriber ws s0 dm ss) byDest"
      have step: "subIds_of ?byDest' d' c' =
          (if d' = d0 \<and> c' = ws then removeAll s0 (subIds_of byDest d0 ws)
           else subIds_of byDest d' c')" for d' c'
        using Some inner
        by (simp add: subIds_of_prune subIds_drop_subscriber) (simp add: subIds_of_def)
      have "cleanup_entries ws (e # entries) byDest = cleanup_entries ws entries ?byDest'"
        using Some inner by (simp add: e)
      then have "subIds_of (cleanup_entries ws (e # entries) byDest) d c =
          (if c = ws then filter (\<lambda>s. (s, d) \<notin> set entries) (subIds_of ?byDest' d ws)
           else subIds_of ?byDest' d c)"
        by (simp add: Cons.IH)
      also have "\<dots> = (if c = ws
           then filter (\<lambda>s. (s, d) \<notin> set (e # entries)) (subIds_of byDest d ws)
           else subIds_of byDest d c)"
        by (auto simp: step e removeAll_filter_not_eq intro: filter_cong)
      finally show ?thesis .
    qed
  qed
qed

text \<open>The second cleanup is a no-op in every state.\<close>

lemma cleanupConnection_twice:
  "cleanupConnection c (cleanupConnection c w) = cleanupConnection c w"
  by (cases "map_of (subscriptionsByConn w) c")
     (simp_all add: cleanupConnection_def delete_conv')

lemma I1_backward_lookup:
  assumes "I1_backward w" and "s \<in> set (subIds_of (subscribersByDestination w) d c)"
  shows "destination_of w c s = Some d"
proof -
  from assms(2) obtain dm where dm: "map_of (subscribersByDestination w) d = Some dm"
    by (cases "map_of (subscribersByDestination w) d") (auto simp: subIds_of_def)
  from assms(2) dm obtain ss where ss: "map_of dm c = Some ss"
    by (cases "map_of dm c") (auto simp: subIds_of_def)
  from assms(2) dm ss have s: "s \<in> set ss"
    by (simp add: subIds_of_def)
  have "(d, dm) \<in> set (subscribersByDestination w)" using dm by (rule map_of_SomeD)
  moreover have "(c, ss) \<in> set dm" using ss by (rule map_of_SomeD)
  ultimately show ?thesis
    using assms(1) s by (fastforce simp: I1_backward_def)
qed

text \<open>
  Where the connection index links back every pair that the destination index lists for
  a connection, \<^verbatim>\<open>cleanupConnection\<close> leaves no subscription of that connection in
  either index.
\<close>

lemma cleanup_complete_for_linked_connection:
  assumes "\<And>d s. s \<in> set (subIds_of (subscribersByDestination w) d c)
             \<Longrightarrow> destination_of w c s = Some d"
  shows "(\<forall>subId. destination_of (cleanupConnection c w) c subId = None)
       \<and> (\<forall>destination. subIds_of (subscribersByDestination (cleanupConnection c w)) destination c = [])
       \<and> cleanupConnection c (cleanupConnection c w) = cleanupConnection c w"
proof (intro conjI allI)
  fix subId
  show "destination_of (cleanupConnection c w) c subId = None"
    by (cases "map_of (subscriptionsByConn w) c")
       (simp_all add: cleanupConnection_def destination_of_def delete_conv')
next
  fix destination
  show "subIds_of (subscribersByDestination (cleanupConnection c w)) destination c = []"
  proof (cases "map_of (subscriptionsByConn w) c")
    case None
    have "s \<notin> set (subIds_of (subscribersByDestination w) destination c)" for s
      using assms [of s destination] None
      by (auto simp: destination_of_def)
    then have "subIds_of (subscribersByDestination w) destination c = []"
      by (cases "subIds_of (subscribersByDestination w) destination c") auto
    then show ?thesis
      using None by (simp add: cleanupConnection_def)
  next
    case (Some connSubs)
    have "(s, destination) \<in> set connSubs"
      if "s \<in> set (subIds_of (subscribersByDestination w) destination c)" for s
      using assms [OF that] Some
      by (auto simp: destination_of_def dest: map_of_SomeD)
    then have "filter (\<lambda>s. (s, destination) \<notin> set connSubs)
                 (subIds_of (subscribersByDestination w) destination c) = []"
      by (auto simp: filter_empty_conv)
    then show ?thesis
      using Some by (simp add: cleanupConnection_def subIds_of_cleanup_entries)
  qed
next
  show "cleanupConnection c (cleanupConnection c w) = cleanupConnection c w"
    by (rule cleanupConnection_twice)
qed

text \<open>
  C6: after \<^verbatim>\<open>cleanupConnection\<close> no subscription of the connection is claimed to
  remain in either index, in every state. Evaluated on the code: connection 0 sends a
  \<^verbatim>\<open>SUBSCRIBE\<close> frame with id \<open>s\<close> for \<open>d1\<close> and one with the same id for \<open>d2\<close>;
  the cleanup of the connection empties the connection index and leaves the pair under
  \<open>d1\<close> in the destination index, and the second cleanup leaves it there as well.
\<close>

theorem cleanup_after_resubscribe_leaves_pair:
  "(let u = (\<lambda>n. ''id'');
        w1 = on_message u (0::nat)
               (''SUBSCRIBE'' @ [CHR 0x0A] @ ''id:s'' @ [CHR 0x0A] @ ''destination:d1''
                  @ [CHR 0x0A, CHR 0x0A, CHR 0x00]) (empty_world (\<lambda>_. OPEN));
        w2 = on_message u 0
               (''SUBSCRIBE'' @ [CHR 0x0A] @ ''id:s'' @ [CHR 0x0A] @ ''destination:d2''
                  @ [CHR 0x0A, CHR 0x0A, CHR 0x00]) w1;
        w3 = cleanupConnection 0 w2;
        w4 = cleanupConnection 0 w3
    in subscriptionsByConn w3 = []
       \<and> subscribersByDestination w3 = [(''d1'', [(0, [''s''])])]
       \<and> subIds_of (subscribersByDestination w3) ''d1'' 0 = [''s'']
       \<and> subscribersByDestination w4 = [(''d1'', [(0, [''s''])])])
   \<and> subIds_of (subscribersByDestination
        (cleanupConnection (0::nat)
           (addSubscription 0 ''s'' ''d2''
              (addSubscription 0 ''s'' ''d1'' (empty_world (\<lambda>_. OPEN)))))) ''d1'' 0 = [''s'']"
  by code_simp

subsection \<open>The invariants without re-subscription\<close>

lemma destination_of_add:
  "destination_of (addSubscription ws subId destination w) c s =
     (if c = ws \<and> s = subId then Some destination else destination_of w c s)"
  by (auto simp: addSubscription_def destination_of_def Let_def map_of_map_entry update_conv'
           split: option.splits)

lemma subIds_of_add:
  "subIds_of (subscribersByDestination (addSubscription ws subId destination w)) d c =
     (if d = destination \<and> c = ws
      then Set_add (subIds_of (subscribersByDestination w) destination ws) subId
      else subIds_of (subscribersByDestination w) d c)"
  by (auto simp: addSubscription_def subIds_of_def Let_def map_of_map_entry update_conv'
                 Set_add_def
           split: option.splits)

lemma destination_of_remove:
  "destination_of (removeSubscription ws subId w) c s =
     (if c = ws \<and> s = subId \<and> destination_of w ws subId \<noteq> Some []
      then None else destination_of w c s)"
proof (cases "map_of (subscriptionsByConn w) ws")
  case None
  then show ?thesis by (auto simp: removeSubscription_def destination_of_def)
next
  case (Some connSubs)
  show ?thesis
  proof (cases "map_of connSubs subId")
    case None
    then show ?thesis using Some by (auto simp: removeSubscription_def destination_of_def)
  next
    case inner: (Some destination)
    show ?thesis
    proof (cases "destination = []")
      case True
      then show ?thesis using Some inner by (auto simp: removeSubscription_def destination_of_def)
    next
      case False
      have rest: "map_of connSubs s' = None" if "AList.delete subId connSubs = []" "s' \<noteq> subId" for s'
      proof -
        have "map_of (AList.delete subId connSubs) s' = map_of connSubs s'"
          using that(2) by (simp add: delete_conv')
        then show ?thesis using that(1) by simp
      qed
      have "subscriptionsByConn (removeSubscription ws subId w) =
              (let byConn = AList.map_entry ws (\<lambda>_. AList.delete subId connSubs) (subscriptionsByConn w)
               in if length (AList.delete subId connSubs) = 0 then AList.delete ws byConn else byConn)"
        using Some inner False
        by (simp add: removeSubscription_def Let_def split: option.splits)
      then show ?thesis
        using Some inner False rest
        by (auto simp: destination_of_def Let_def map_of_map_entry delete_conv'
                 split: option.splits)
    qed
  qed
qed

lemma subIds_of_remove:
  "subIds_of (subscribersByDestination (removeSubscription ws subId w)) d c =
     (case destination_of w ws subId of
        None \<Rightarrow> subIds_of (subscribersByDestination w) d c
      | Some destination \<Rightarrow>
          if destination \<noteq> [] \<and> d = destination \<and> c = ws
          then removeAll subId (subIds_of (subscribersByDestination w) d c)
          else subIds_of (subscribersByDestination w) d c)"
proof (cases "destination_of w ws subId")
  case None
  then show ?thesis
    by (auto simp: removeSubscription_def destination_of_def split: option.splits)
next
  case (Some destination)
  then obtain connSubs where cs: "map_of (subscriptionsByConn w) ws = Some connSubs"
    "map_of connSubs subId = Some destination"
    by (auto simp: destination_of_def split: option.splits)
  show ?thesis
  proof (cases "destination = []")
    case True
    then show ?thesis using Some cs by (simp add: removeSubscription_def)
  next
    case False
    show ?thesis
    proof (cases "map_of (subscribersByDestination w) destination")
      case None
      then have "subscribersByDestination (removeSubscription ws subId w) = subscribersByDestination w"
        using cs False by (simp add: removeSubscription_def Let_def)
      moreover have "subIds_of (subscribersByDestination w) destination c = []"
        using None by (simp add: subIds_of_def)
      ultimately show ?thesis using Some False by auto
    next
      case dm: (Some dm)
      show ?thesis
      proof (cases "map_of dm ws")
        case None
        then have "subscribersByDestination (removeSubscription ws subId w) = subscribersByDestination w"
          using cs False dm by (simp add: removeSubscription_def Let_def)
        moreover have "subIds_of (subscribersByDestination w) destination ws = []"
          using None dm by (simp add: subIds_of_def)
        ultimately show ?thesis using Some False by auto
      next
        case ss: (Some ss)
        have "subscribersByDestination (removeSubscription ws subId w) =
                prune_destination destination (drop_subscriber ws subId dm ss)
                  (subscribersByDestination w)"
          using cs False dm ss by (simp add: removeSubscription_def Let_def)
        then show ?thesis
          using Some False dm ss
          by (simp add: subIds_of_prune subIds_drop_subscriber) (simp add: subIds_of_def)
      qed
    qed
  qed
qed

lemma destination_of_cleanup:
  "destination_of (cleanupConnection ws w) c s = (if c = ws then None else destination_of w c s)"
  by (cases "map_of (subscriptionsByConn w) ws")
     (auto simp: cleanupConnection_def destination_of_def delete_conv')

lemma subIds_of_cleanup:
  "subIds_of (subscribersByDestination (cleanupConnection ws w)) d c =
     (case map_of (subscriptionsByConn w) ws of
        None \<Rightarrow> subIds_of (subscribersByDestination w) d c
      | Some connSubs \<Rightarrow>
          if c = ws
          then filter (\<lambda>s. (s, d) \<notin> set connSubs) (subIds_of (subscribersByDestination w) d ws)
          else subIds_of (subscribersByDestination w) d c)"
  by (cases "map_of (subscriptionsByConn w) ws")
     (simp_all add: cleanupConnection_def subIds_of_cleanup_entries)

lemma linked_add:
  assumes "linked w"
    and "destination_of w ws subId = None \<or> destination_of w ws subId = Some destination"
  shows "linked (addSubscription ws subId destination w)"
  using assms
  unfolding linked_def destination_of_add subIds_of_add
  by (auto simp: Set_add_def; metis option.distinct(1) option.inject)

lemma linked_remove:
  assumes "linked w"
  shows "linked (removeSubscription ws subId w)"
  using assms
  unfolding linked_def destination_of_remove subIds_of_remove
  by (auto split: option.splits; metis option.distinct(1) option.inject)

lemma linked_cleanup:
  assumes "linked w"
  shows "linked (cleanupConnection ws w)"
proof (cases "map_of (subscriptionsByConn w) ws")
  case None
  then show ?thesis using assms by (simp add: cleanupConnection_def)
next
  case (Some connSubs)
  have "(s, d) \<in> set connSubs" if "s \<in> set (subIds_of (subscribersByDestination w) d ws)" for s d
  proof -
    have "destination_of w ws s = Some d" using assms that by (simp add: linked_def)
    then show ?thesis using Some by (auto simp: destination_of_def dest: map_of_SomeD)
  qed
  then have "filter (\<lambda>s. (s, d) \<notin> set connSubs) (subIds_of (subscribersByDestination w) d ws) = []" for d
    by (auto simp: filter_empty_conv)
  then show ?thesis
    using assms Some
    unfolding linked_def destination_of_cleanup subIds_of_cleanup
    by auto
qed

lemma map_entry_not_Nil [simp]: "AList.map_entry k f xs = [] \<longleftrightarrow> xs = []"
  by (cases xs) auto

lemma conn_ok_add:
  assumes "conn_ok (subscriptionsByConn w)"
  shows "conn_ok (subscriptionsByConn (addSubscription ws subId destination w))"
proof -
  let ?b = "subscriptionsByConn w"
  let ?b1 = "if map_of ?b ws = None then AList.update ws [] ?b else ?b"
  let ?b2 = "AList.map_entry ws (AList.update subId destination) ?b1"
  have eq: "subscriptionsByConn (addSubscription ws subId destination w) = ?b2"
    by (simp add: addSubscription_def Let_def)
  have d: "distinct (map fst ?b2)"
    using assms by (auto simp: conn_ok_def intro!: distinct_map_entry distinct_update)
  have inner: "m \<noteq> [] \<and> distinct (map fst m)" if "map_of ?b c = Some m" for c m
    using that assms by (simp add: conn_ok_def)
  have "m \<noteq> [] \<and> distinct (map fst m)" if "map_of ?b2 c = Some m" for c m
    using that inner
    by (auto simp: map_of_map_entry update_conv' distinct_update
             split: if_splits option.splits)
  then show ?thesis
    unfolding eq conn_ok_def using d by blast
qed

lemma conn_ok_remove:
  assumes "conn_ok (subscriptionsByConn w)"
  shows "conn_ok (subscriptionsByConn (removeSubscription ws subId w))"
proof (cases "destination_of w ws subId = None \<or> destination_of w ws subId = Some []")
  case True
  then have "removeSubscription ws subId w = w"
    by (auto simp: removeSubscription_def destination_of_def split: option.splits)
  then show ?thesis using assms by simp
next
  case False
  then obtain connSubs destination where cs: "map_of (subscriptionsByConn w) ws = Some connSubs"
    "map_of connSubs subId = Some destination" "destination \<noteq> []"
    by (auto simp: destination_of_def split: option.splits)
  let ?m = "AList.delete subId connSubs"
  let ?b1 = "AList.map_entry ws (\<lambda>_. ?m) (subscriptionsByConn w)"
  let ?b2 = "if length ?m = 0 then AList.delete ws ?b1 else ?b1"
  have eq: "subscriptionsByConn (removeSubscription ws subId w) = ?b2"
    using cs by (simp add: removeSubscription_def Let_def split: option.splits)
  have d: "distinct (map fst ?b2)"
    using assms by (auto simp: conn_ok_def intro!: distinct_map_entry distinct_delete)
  have inner: "m \<noteq> [] \<and> distinct (map fst m)"
    if "map_of (subscriptionsByConn w) c = Some m" for c m
    using that assms by (simp add: conn_ok_def)
  have "m \<noteq> [] \<and> distinct (map fst m)" if "map_of ?b2 c = Some m" for c m
    using that inner cs(1) inner [OF cs(1)]
    by (auto simp: map_of_map_entry delete_conv' distinct_delete
             split: if_splits option.splits)
  then show ?thesis
    unfolding eq conn_ok_def using d by blast
qed

lemma conn_ok_cleanup:
  assumes "conn_ok (subscriptionsByConn w)"
  shows "conn_ok (subscriptionsByConn (cleanupConnection ws w))"
proof -
  have inner: "m \<noteq> [] \<and> distinct (map fst m)"
    if "map_of (subscriptionsByConn w) c = Some m" for c m
    using that assms by (simp add: conn_ok_def)
  have d: "distinct (map fst (AList.delete ws (subscriptionsByConn w)))"
    using assms by (simp add: conn_ok_def distinct_delete)
  have "m \<noteq> [] \<and> distinct (map fst m)"
    if "map_of (AList.delete ws (subscriptionsByConn w)) c = Some m" for c m
    using that inner by (auto simp: delete_conv' split: if_splits)
  then have "conn_ok (AList.delete ws (subscriptionsByConn w))"
    unfolding conn_ok_def using d by blast
  then show ?thesis
    using assms by (cases "map_of (subscriptionsByConn w) ws") (simp_all add: cleanupConnection_def)
qed

lemma subscribers_ok_add:
  assumes "dm = [] \<or> subscribers_ok dm"
  shows "subscribers_ok
           (AList.map_entry ws (\<lambda>subIds. Set_add subIds subId)
              (if map_of dm ws = None then AList.update ws [] dm else dm))"
proof -
  let ?d1 = "if map_of dm ws = None then AList.update ws [] dm else dm"
  let ?d2 = "AList.map_entry ws (\<lambda>subIds. Set_add subIds subId) ?d1"
  have "distinct (map fst dm)" using assms by (auto simp: subscribers_ok_def)
  then have d: "distinct (map fst ?d2)"
    by (auto intro!: distinct_map_entry distinct_update)
  have ne: "?d2 \<noteq> []" by auto
  have inner: "ss \<noteq> [] \<and> distinct ss" if "map_of dm c = Some ss" for c ss
    using that assms by (auto simp: subscribers_ok_def)
  have "ss \<noteq> [] \<and> distinct ss" if "map_of ?d2 c = Some ss" for c ss
    using that inner
    by (auto simp: map_of_map_entry update_conv' Set_add_def
             split: if_splits option.splits)
  then show ?thesis
    unfolding subscribers_ok_def using d ne by blast
qed

lemma dest_ok_add:
  assumes "dest_ok (subscribersByDestination w)"
  shows "dest_ok (subscribersByDestination (addSubscription ws subId destination w))"
proof -
  let ?b = "subscribersByDestination w"
  let ?b1 = "if map_of ?b destination = None then AList.update destination [] ?b else ?b"
  let ?F = "\<lambda>dm. AList.map_entry ws (\<lambda>subIds. Set_add subIds subId)
              (if map_of dm ws = None then AList.update ws [] dm else dm)"
  let ?b2 = "AList.map_entry destination ?F ?b1"
  have eq: "subscribersByDestination (addSubscription ws subId destination w) = ?b2"
    by (simp add: addSubscription_def Let_def)
  have d: "distinct (map fst ?b2)"
    using assms by (auto simp: dest_ok_def intro!: distinct_map_entry distinct_update)
  have inner: "subscribers_ok dm" if "map_of ?b d = Some dm" for d dm
    using that assms by (simp add: dest_ok_def)
  have "subscribers_ok dm" if "map_of ?b2 d = Some dm" for d dm
  proof (cases "d = destination")
    case False
    then show ?thesis
      using that inner
      by (auto simp: map_of_map_entry update_conv' split: if_splits option.splits)
  next
    case True
    let ?dm0 = "case map_of ?b destination of None \<Rightarrow> [] | Some x \<Rightarrow> x"
    have "map_of ?b2 destination = Some (?F ?dm0)"
      by (auto simp: map_of_map_entry update_conv' split: option.splits)
    then have "dm = ?F ?dm0" using that True by simp
    moreover have "?dm0 = [] \<or> subscribers_ok ?dm0"
      using inner by (auto split: option.splits)
    ultimately show ?thesis
      using subscribers_ok_add [of ?dm0 ws subId] by simp
  qed
  then show ?thesis
    unfolding eq dest_ok_def using d by blast
qed

lemma dest_ok_prune_drop:
  assumes "dest_ok byDest" "map_of byDest d = Some dm" "map_of dm c = Some ss"
  shows "dest_ok (prune_destination d (drop_subscriber c s dm ss) byDest)"
proof -
  let ?dm' = "drop_subscriber c s dm ss"
  have dm: "subscribers_ok dm" using assms(1,2) by (auto simp: dest_ok_def)
  have d: "distinct (map fst (prune_destination d ?dm' byDest))"
    using assms(1)
    by (auto simp: dest_ok_def prune_destination_def Let_def
             intro!: distinct_map_entry distinct_delete)
  have dd: "distinct (map fst ?dm')"
    using dm by (auto simp: subscribers_ok_def drop_subscriber_def Let_def
                      intro!: distinct_map_entry distinct_delete)
  have inner: "x \<noteq> [] \<and> distinct x" if "map_of dm c' = Some x" for c' x
    using that dm by (simp add: subscribers_ok_def)
  have "ss' \<noteq> [] \<and> distinct ss'" if "map_of ?dm' c' = Some ss'" for c' ss'
    using that inner assms(3) inner [OF assms(3)]
    by (auto simp: map_of_drop_subscriber distinct_removeAll split: if_splits)
  then have ok: "?dm' \<noteq> [] \<Longrightarrow> subscribers_ok ?dm'"
    unfolding subscribers_ok_def using dd by blast
  have outer: "subscribers_ok x" if "map_of byDest d' = Some x" for d' x
    using that assms(1) by (simp add: dest_ok_def)
  have "subscribers_ok x" if "map_of (prune_destination d ?dm' byDest) d' = Some x" for d' x
    using that outer assms(2) ok
    by (auto simp: map_of_prune_destination split: if_splits)
  then show ?thesis
    unfolding dest_ok_def using d by blast
qed

lemma dest_ok_prune_same:
  assumes "dest_ok byDest" "map_of byDest d = Some dm"
  shows "dest_ok (prune_destination d dm byDest)"
proof -
  have d: "distinct (map fst (prune_destination d dm byDest))"
    using assms(1)
    by (auto simp: dest_ok_def prune_destination_def Let_def
             intro!: distinct_map_entry distinct_delete)
  have outer: "subscribers_ok x" if "map_of byDest d' = Some x" for d' x
    using that assms(1) by (simp add: dest_ok_def)
  have "subscribers_ok x" if "map_of (prune_destination d dm byDest) d' = Some x" for d' x
    using that outer assms(2)
    by (auto simp: map_of_prune_destination split: if_splits)
  then show ?thesis
    unfolding dest_ok_def using d by blast
qed

lemma dest_ok_cleanup_entries:
  "dest_ok byDest \<Longrightarrow> dest_ok (cleanup_entries ws entries byDest)"
proof (induction entries arbitrary: byDest)
  case Nil
  then show ?case by simp
next
  case (Cons e entries)
  obtain s d where e: "e = (s, d)" by (cases e)
  show ?case
  proof (cases "map_of byDest d")
    case None
    then show ?thesis using Cons by (simp add: e)
  next
    case (Some dm)
    show ?thesis
    proof (cases "map_of dm ws")
      case None
      then show ?thesis
        using Cons Some by (simp add: e dest_ok_prune_same)
    next
      case inner: (Some ss)
      then show ?thesis
        using Cons Some by (simp add: e dest_ok_prune_drop)
    qed
  qed
qed

lemma dest_ok_cleanup:
  "dest_ok (subscribersByDestination w) \<Longrightarrow>
     dest_ok (subscribersByDestination (cleanupConnection ws w))"
  by (cases "map_of (subscriptionsByConn w) ws")
     (simp_all add: cleanupConnection_def dest_ok_cleanup_entries)

lemma dest_ok_remove:
  assumes "dest_ok (subscribersByDestination w)"
  shows "dest_ok (subscribersByDestination (removeSubscription ws subId w))"
  using assms
  by (auto simp: removeSubscription_def Let_def dest_ok_prune_drop split: option.splits)

lemma consistent_empty: "consistent (empty_world rs)"
  by (simp add: consistent_def conn_ok_def dest_ok_def linked_def empty_world_def
        destination_of_def subIds_of_def)

lemma consistent_apply_op:
  "consistent w \<Longrightarrow> conflict_free x w \<Longrightarrow> consistent (apply_op x w)"
proof (cases x)
  case (AddSubscription ws subId destination)
  assume "consistent w" "conflict_free x w"
  then show ?thesis
    using AddSubscription
    by (simp add: consistent_def conn_ok_add dest_ok_add linked_add)
next
  case (RemoveSubscription ws subId)
  assume "consistent w"
  then show ?thesis
    using RemoveSubscription
    by (simp add: consistent_def conn_ok_remove dest_ok_remove linked_remove)
next
  case (RemoveAllForConnection ws)
  assume "consistent w"
  then show ?thesis
    using RemoveAllForConnection
    by (simp add: consistent_def conn_ok_cleanup dest_ok_cleanup linked_cleanup)
qed

lemma consistent_run_ops:
  "consistent w \<Longrightarrow> run_conflict_free ops w \<Longrightarrow> consistent (run_ops ops w)"
proof (induction ops arbitrary: w)
  case Nil
  then show ?case by (simp add: run_ops_def)
next
  case (Cons x ops)
  then have "consistent (run_ops ops (apply_op x w))"
    by (simp add: consistent_apply_op)
  then show ?case by (simp add: run_ops_def)
qed

lemma consistent_invariants:
  assumes "consistent w"
  shows "well_formed w \<and> I1_forward w \<and> I1_backward w \<and> I2 w \<and> I3 w"
proof -
  have dc: "distinct (map fst (subscriptionsByConn w))"
    and dd: "distinct (map fst (subscribersByDestination w))"
    using assms by (simp_all add: consistent_def conn_ok_def dest_ok_def)
  have conn: "m \<noteq> [] \<and> distinct (map fst m) \<and> map_of (subscriptionsByConn w) c = Some m"
    if "(c, m) \<in> set (subscriptionsByConn w)" for c m
  proof -
    have "map_of (subscriptionsByConn w) c = Some m" using dc that by simp
    then show ?thesis using assms by (simp add: consistent_def conn_ok_def)
  qed
  have dest: "subscribers_ok dm \<and> map_of (subscribersByDestination w) d = Some dm"
    if "(d, dm) \<in> set (subscribersByDestination w)" for d dm
  proof -
    have "map_of (subscribersByDestination w) d = Some dm" using dd that by simp
    then show ?thesis using assms by (simp add: consistent_def dest_ok_def)
  qed
  have subs: "ss \<noteq> [] \<and> distinct ss \<and> map_of dm c = Some ss"
    if "subscribers_ok dm" "(c, ss) \<in> set dm" for dm c ss
  proof -
    have "map_of dm c = Some ss" using that by (simp add: subscribers_ok_def)
    then show ?thesis using that(1) by (simp add: subscribers_ok_def)
  qed
  have link: "destination_of w c s = Some d \<longleftrightarrow> s \<in> set (subIds_of (subscribersByDestination w) d c)"
    for c s d
    using assms by (simp add: consistent_def linked_def)
  have "well_formed w"
    unfolding well_formed_def
    using dc dd conn dest subs by (fastforce simp: subscribers_ok_def)
  moreover have "I1_forward w"
    unfolding I1_forward_def
  proof (intro ballI, clarify)
    fix c m s d
    assume "(c, m) \<in> set (subscriptionsByConn w)" "(s, d) \<in> set m"
    then have "destination_of w c s = Some d"
      using conn [of c m] by (simp add: destination_of_def)
    then show "s \<in> set (subIds_of (subscribersByDestination w) d c)"
      by (simp add: link)
  qed
  moreover have "I1_backward w"
    unfolding I1_backward_def
  proof (intro ballI, clarify)
    fix d dm c ss s
    assume "(d, dm) \<in> set (subscribersByDestination w)" "(c, ss) \<in> set dm" "s \<in> set ss"
    then have "s \<in> set (subIds_of (subscribersByDestination w) d c)"
      using dest [of d dm] subs [of dm c ss] by (simp add: subIds_of_def)
    then show "destination_of w c s = Some d"
      by (simp add: link)
  qed
  moreover have "I2 w"
    unfolding I2_def
  proof (intro ballI, clarify)
    fix d dm
    assume "(d, dm) \<in> set (subscribersByDestination w)"
    then have ok: "subscribers_ok dm" using dest by blast
    then obtain c ss where "(c, ss) \<in> set dm"
      by (cases dm) (auto simp: subscribers_ok_def)
    then show "\<exists>(c, ss) \<in> set dm. ss \<noteq> []"
      using subs [OF ok] by blast
  qed
  moreover have "I3 w"
    unfolding I3_def using conn by blast
  ultimately show ?thesis by blast
qed

text \<open>
  The registry invariants hold after every run of registry operations from the empty
  indices in which no subscription re-uses an id that the connection holds for another
  destination.
\<close>

lemma invariants_without_resubscription:
  assumes "run_conflict_free ops (empty_world rs)"
  shows "well_formed (run_ops ops (empty_world rs))
       \<and> I1_forward (run_ops ops (empty_world rs)) \<and> I1_backward (run_ops ops (empty_world rs))
       \<and> I2 (run_ops ops (empty_world rs)) \<and> I3 (run_ops ops (empty_world rs))"
  using consistent_invariants [OF consistent_run_ops [OF consistent_empty assms]] .

text \<open>
  \<^verbatim>\<open>registerConnection\<close> of the SockJS binding is not one of the three operations: it
  enters a connection that has no subscription yet.
\<close>

lemma registerConnection_breaks_I3:
  "\<not> I3 (registerConnection (0::nat) (empty_world (\<lambda>_. OPEN)))"
  by code_simp

text \<open>\<^verbatim>\<open>addSubscription\<close> never changes the entry of another destination.\<close>

lemma addSubscription_keeps_other_destinations:
  "d \<noteq> destination \<Longrightarrow>
     subIds_of (subscribersByDestination (addSubscription ws subId destination w)) d c
       = subIds_of (subscribersByDestination w) d c"
  by (simp add: subIds_of_add)

section \<open>Properties of sending and broadcasting\<close>

lemma sendFrame_open:
  "readyState w ws = OPEN \<Longrightarrow>
     sendFrame ws cmd hdrs bdy w = w\<lparr>sent := sent w @ [(ws, frame_text cmd hdrs bdy)]\<rparr>"
  by (simp add: sendFrame_def)

lemma sendFrame_not_open:
  "readyState w ws \<noteq> OPEN \<Longrightarrow> sendFrame ws cmd hdrs bdy w = w"
  by (simp add: sendFrame_def)

lemma stamped_append:
  "stamped u d b n (ps @ qs) = stamped u d b n ps @ stamped u d b (n + length ps) qs"
  by (simp add: stamped_def enumerate_append_eq)

lemma broadcast_subIds_open:
  "readyState w ws = OPEN \<Longrightarrow>
   broadcast_subIds u ws d b subIds w =
     w\<lparr>uuid_calls := uuid_calls w + length subIds,
       sent := sent w @ stamped u d b (uuid_calls w) (map (Pair ws) subIds)\<rparr>"
proof (induction subIds arbitrary: w)
  case Nil
  then show ?case by (simp add: stamped_def)
next
  case (Cons s subIds)
  let ?w1 = "sendFrame ws ''MESSAGE''
                [(''subscription'', s), (''destination'', d), (''message-id'', u (uuid_calls w))] b
                (w\<lparr>uuid_calls := Suc (uuid_calls w)\<rparr>)"
  have w1: "?w1 = w\<lparr>uuid_calls := Suc (uuid_calls w),
                     sent := sent w @ stamped u d b (uuid_calls w) [(ws, s)]\<rparr>"
    using Cons.prems by (simp add: sendFrame_def stamped_def)
  have "broadcast_subIds u ws d b (s # subIds) w = broadcast_subIds u ws d b subIds ?w1"
    by (simp add: Let_def)
  also have "\<dots> = ?w1\<lparr>uuid_calls := uuid_calls ?w1 + length subIds,
       sent := sent ?w1 @ stamped u d b (uuid_calls ?w1) (map (Pair ws) subIds)\<rparr>"
    by (rule Cons.IH) (simp add: w1 Cons.prems)
  finally show ?case
    by (simp add: w1 stamped_def)
qed

lemma filter_open_pairs:
  "filter (\<lambda>(ws', subId). readyState w ws' = OPEN) (map (Pair ws) subIds) =
     (if readyState w ws = OPEN then map (Pair ws) subIds else [])"
  by (induction subIds) auto

lemma broadcast_entries_sent:
  "broadcast_entries u d b entries w =
     w\<lparr>uuid_calls := uuid_calls w
          + length (filter (\<lambda>(ws, subId). readyState w ws = OPEN)
                      (concat (map (\<lambda>(ws, subIds). map (Pair ws) subIds) entries))),
       sent := sent w @ stamped u d b (uuid_calls w)
                 (filter (\<lambda>(ws, subId). readyState w ws = OPEN)
                    (concat (map (\<lambda>(ws, subIds). map (Pair ws) subIds) entries)))\<rparr>"
proof (induction entries arbitrary: w)
  case Nil
  then show ?case by (simp add: stamped_def)
next
  case (Cons e entries)
  obtain ws subIds where e: "e = (ws, subIds)" by (cases e)
  show ?case
  proof (cases "readyState w ws = OPEN")
    case True
    then show ?thesis
      by (simp add: e Cons.IH broadcast_subIds_open filter_open_pairs stamped_append)
  next
    case False
    then show ?thesis
      by (simp add: e Cons.IH filter_open_pairs)
  qed
qed

lemma broadcast_eq:
  "broadcast u d b w =
     w\<lparr>uuid_calls := uuid_calls w + length (open_pairs w d),
       sent := sent w @ stamped u d b (uuid_calls w) (open_pairs w d)\<rparr>"
  by (cases "map_of (subscribersByDestination w) d")
     (simp_all add: broadcast_def open_pairs_def pairs_of_def broadcast_entries_sent stamped_def)

lemma pairs_distinct:
  assumes "distinct (map fst entries)" "\<forall>(ws, subIds) \<in> set entries. distinct subIds"
  shows "distinct (concat (map (\<lambda>(ws, subIds). map (Pair ws) subIds) entries))"
  using assms
proof (induction entries)
  case Nil
  then show ?case by simp
next
  case (Cons e entries)
  obtain ws subIds where e: "e = (ws, subIds)" by (cases e)
  have "distinct (map (Pair ws) subIds)"
    using Cons.prems e by (simp add: distinct_map inj_on_def)
  moreover have "set (map (Pair ws) subIds) \<inter>
      set (concat (map (\<lambda>(ws, subIds). map (Pair ws) subIds) entries)) = {}"
    using Cons.prems e by (auto simp: image_iff)
  ultimately show ?case
    using Cons e by simp
qed

lemma well_formed_pairs_distinct: "well_formed w \<Longrightarrow> distinct (pairs_of w d)"
proof (cases "map_of (subscribersByDestination w) d")
  case None
  then show ?thesis by (simp add: pairs_of_def)
next
  case (Some entries)
  assume "well_formed w"
  moreover have "(d, entries) \<in> set (subscribersByDestination w)"
    using Some by (rule map_of_SomeD)
  ultimately have "distinct (map fst entries)" "\<forall>(ws, subIds) \<in> set entries. distinct subIds"
    by (auto simp: well_formed_def)
  then show ?thesis
    using Some by (simp add: pairs_of_def pairs_distinct)
qed

lemma stamped_ids_distinct:
  "inj u \<Longrightarrow> distinct (map (\<lambda>(i, p). u i) (enumerate n ps))"
proof -
  assume "inj u"
  have "map (\<lambda>(i, p). u i) (enumerate n ps) = map (u \<circ> fst) (enumerate n ps)"
    by (simp add: case_prod_unfold comp_def)
  also have "\<dots> = map u (map fst (enumerate n ps))" by (simp only: map_map)
  also have "\<dots> = map u [n..<n + length ps]" by (simp only: map_fst_enumerate)
  finally have eq: "map (\<lambda>(i, p). u i) (enumerate n ps) = map u [n..<n + length ps]" .
  have "distinct (map u [n..<n + length ps])"
    using \<open>inj u\<close> by (simp add: distinct_map inj_on_def inj_def)
  then show ?thesis
    by (simp only: eq)
qed

text \<open>
  C4: a broadcast of the native binding appends to the sent payloads exactly one frame
  for each pair of an open connection and a subscription id registered for the
  destination, in iteration order: the text \<^verbatim>\<open>MESSAGE\<close>, the header lines
  \<open>subscription\<close>, \<open>destination\<close> and \<open>message-id\<close>, a blank line, the given body and
  a NUL. No pair occurs twice when the maps and sets have no duplicate keys (as in the
  runtime), and the identifiers of the frames are pairwise distinct when successive calls
  of \<^verbatim>\<open>randomUUID\<close> return distinct values.
\<close>

theorem broadcast_fan_out:
  assumes "well_formed w" and "inj randomUUID"
  shows "sent (broadcast randomUUID destination bdy w) =
           sent w @ map (\<lambda>(i, ws, subId).
                          (ws, ''MESSAGE'' @ [CHR 0x0A]
                               @ ''subscription:'' @ subId @ [CHR 0x0A]
                               @ ''destination:'' @ destination @ [CHR 0x0A]
                               @ ''message-id:'' @ randomUUID i @ [CHR 0x0A]
                               @ [CHR 0x0A] @ bdy @ [CHR 0x00]))
                      (enumerate (uuid_calls w) (open_pairs w destination))
         \<and> distinct (open_pairs w destination)
         \<and> distinct (map (\<lambda>(i, ws, subId). randomUUID i)
                       (enumerate (uuid_calls w) (open_pairs w destination)))"
proof (intro conjI)
  show "sent (broadcast randomUUID destination bdy w) =
           sent w @ map (\<lambda>(i, ws, subId).
                          (ws, ''MESSAGE'' @ [CHR 0x0A]
                               @ ''subscription:'' @ subId @ [CHR 0x0A]
                               @ ''destination:'' @ destination @ [CHR 0x0A]
                               @ ''message-id:'' @ randomUUID i @ [CHR 0x0A]
                               @ [CHR 0x0A] @ bdy @ [CHR 0x00]))
                      (enumerate (uuid_calls w) (open_pairs w destination))"
    by (simp add: broadcast_eq stamped_def frame_text_def NL_def NUL_def)
  show "distinct (open_pairs w destination)"
    using assms(1) by (simp add: open_pairs_def well_formed_pairs_distinct)
  show "distinct (map (\<lambda>(i, ws, subId). randomUUID i)
                       (enumerate (uuid_calls w) (open_pairs w destination)))"
    using stamped_ids_distinct [OF assms(2)] by (simp add: case_prod_unfold)
qed

theorem broadcast_fan_out_witness:
  "well_formed
     (run_ops [AddSubscription (0::nat) ''s1'' ''room/1'', AddSubscription 1 ''s2'' ''room/1'',
               AddSubscription 0 ''s3'' ''room/1'', AddSubscription 2 ''s4'' ''room/1'']
        (empty_world (\<lambda>c. if c = 2 then CLOSED else OPEN)))
   \<and> inj (\<lambda>n. replicate n (CHR ''u''))
   \<and> sent (broadcast (\<lambda>n. replicate n (CHR ''u'')) ''room/1'' ''hi''
        (run_ops [AddSubscription (0::nat) ''s1'' ''room/1'', AddSubscription 1 ''s2'' ''room/1'',
                  AddSubscription 0 ''s3'' ''room/1'', AddSubscription 2 ''s4'' ''room/1'']
           (empty_world (\<lambda>c. if c = 2 then CLOSED else OPEN))))
     = [(0, ''MESSAGE'' @ [CHR 0x0A] @ ''subscription:s1'' @ [CHR 0x0A]
            @ ''destination:room/1'' @ [CHR 0x0A] @ ''message-id:'' @ [CHR 0x0A, CHR 0x0A]
            @ ''hi'' @ [CHR 0x00]),
        (0, ''MESSAGE'' @ [CHR 0x0A] @ ''subscription:s3'' @ [CHR 0x0A]
            @ ''destination:room/1'' @ [CHR 0x0A] @ ''message-id:u'' @ [CHR 0x0A, CHR 0x0A]
            @ ''hi'' @ [CHR 0x00]),
        (1, ''MESSAGE'' @ [CHR 0x0A] @ ''subscription:s2'' @ [CHR 0x0A]
            @ ''destination:room/1'' @ [CHR 0x0A] @ ''message-id:uu'' @ [CHR 0x0A, CHR 0x0A]
            @ ''hi'' @ [CHR 0x00])]"
  (is "well_formed ?w \<and> inj ?u \<and> _ = ?frames")
proof -
  have wf: "well_formed ?w" by code_simp
  have u: "inj ?u" by (simp add: inj_def)
  have pairs: "open_pairs ?w ''room/1'' = [(0, ''s1''), (0, ''s3''), (1, ''s2'')]" by code_simp
  have sent0: "sent ?w = []" by code_simp
  have calls: "uuid_calls ?w = 0" by code_simp
  have "sent (broadcast ?u ''room/1'' ''hi'' ?w) =
          sent ?w @ map (\<lambda>(i, ws, subId).
                          (ws, ''MESSAGE'' @ [CHR 0x0A]
                               @ ''subscription:'' @ subId @ [CHR 0x0A]
                               @ ''destination:'' @ ''room/1'' @ [CHR 0x0A]
                               @ ''message-id:'' @ ?u i @ [CHR 0x0A]
                               @ [CHR 0x0A] @ ''hi'' @ [CHR 0x00]))
                      (enumerate (uuid_calls ?w) (open_pairs ?w ''room/1''))"
    using broadcast_fan_out [OF wf u, of "''room/1''" "''hi''"] by (rule conjunct1)
  also have "\<dots> = ?frames"
    unfolding pairs sent0 calls by (simp add: numeral_2_eq_2)
  finally show ?thesis
    using wf u by blast
qed

lemma broadcast_entries_no_ids:
  "\<forall>(ws, subIds) \<in> set entries. subIds = [] \<Longrightarrow>
     broadcast_entries randomUUID destination bdy entries w = w"
  by (induction entries arbitrary: w) auto

text \<open>
  C8: a broadcast to a destination without a registered pair of a connection and an id
  returns the state as it was: nothing is sent, no identifier is drawn, and the indices
  are unchanged. The function has no failing branch.
\<close>

theorem broadcast_no_subscribers:
  assumes "pairs_of w destination = []"
  shows "broadcast randomUUID destination bdy w = w"
proof (cases "map_of (subscribersByDestination w) destination")
  case None
  then show ?thesis by (simp add: broadcast_def)
next
  case (Some entries)
  with assms have "\<forall>(ws, subIds) \<in> set entries. subIds = []"
    by (auto simp: pairs_of_def)
  with Some show ?thesis
    by (simp add: broadcast_def broadcast_entries_no_ids)
qed

theorem broadcast_no_subscribers_witness:
  "pairs_of (addSubscription (0::nat) ''s1'' ''room/1'' (empty_world (\<lambda>_. OPEN))) ''empty/topic'' = []
   \<and> broadcast (\<lambda>n. ''id'') ''empty/topic'' ''x''
        (addSubscription (0::nat) ''s1'' ''room/1'' (empty_world (\<lambda>_. OPEN)))
      = addSubscription (0::nat) ''s1'' ''room/1'' (empty_world (\<lambda>_. OPEN))"
  (is "pairs_of ?w _ = [] \<and> _")
proof -
  have h: "pairs_of ?w ''empty/topic'' = []" by code_simp
  show ?thesis
    using broadcast_no_subscribers [OF h] h by simp
qed

text \<open>
  C5: in the native binding, a \<^verbatim>\<open>SUBSCRIBE\<close> frame whose \<open>id\<close> or \<open>destination\<close> header
  is absent or empty changes neither index and no ready state. When the socket of the
  connection is open, exactly one frame is appended for that connection: the text
  \<^verbatim>\<open>ERROR\<close>, the header line \<open>message\<close>, a blank line, a body naming the missing
  header and a NUL. When the socket is not open, nothing is sent.
\<close>

theorem subscribe_missing_header_reply:
  assumes "command frame = ''SUBSCRIBE''"
    and "falsy (headers frame ''id'') \<or> falsy (headers frame ''destination'')"
  shows "handleFrame randomUUID ws frame w =
           (if readyState w ws = OPEN
            then w\<lparr>sent := sent w @
                   [(ws, ''ERROR'' @ [CHR 0x0A]
                         @ ''message:Subscription requires id and destination'' @ [CHR 0x0A]
                         @ [CHR 0x0A] @ ''Missing id or destination header'' @ [CHR 0x00])]\<rparr>
            else w)"
  using assms
  by (auto simp: handleFrame_def falsy_def sendFrame_def frame_text_def NL_def NUL_def
           split: option.splits)

theorem subscribe_missing_header_reply_witness:
  "command \<lparr>command = ''SUBSCRIBE'', headers = [''id'' \<mapsto> ''1''], body = []\<rparr> = ''SUBSCRIBE''
   \<and> (falsy (headers \<lparr>command = ''SUBSCRIBE'', headers = [''id'' \<mapsto> ''1''], body = []\<rparr> ''id'')
        \<or> falsy (headers \<lparr>command = ''SUBSCRIBE'', headers = [''id'' \<mapsto> ''1''], body = []\<rparr>
                    ''destination''))
   \<and> handleFrame (\<lambda>n. ''id'') (0::nat)
        \<lparr>command = ''SUBSCRIBE'', headers = [''id'' \<mapsto> ''1''], body = []\<rparr>
        (empty_world (\<lambda>_. OPEN))
      = (empty_world (\<lambda>_. OPEN))\<lparr>sent :=
           [(0, ''ERROR'' @ [CHR 0x0A]
                @ ''message:Subscription requires id and destination'' @ [CHR 0x0A]
                @ [CHR 0x0A] @ ''Missing id or destination header'' @ [CHR 0x00])]\<rparr>
   \<and> handleFrame (\<lambda>n. ''id'') (0::nat)
        \<lparr>command = ''SUBSCRIBE'', headers = [''id'' \<mapsto> ''1''], body = []\<rparr>
        (empty_world (\<lambda>_. CLOSING))
      = empty_world (\<lambda>_. CLOSING)"
  using subscribe_missing_header_reply
          [of "\<lparr>command = ''SUBSCRIBE'', headers = [''id'' \<mapsto> ''1''], body = []\<rparr>"
              "\<lambda>n. ''id''" "0::nat" "empty_world (\<lambda>_. OPEN)"]
        subscribe_missing_header_reply
          [of "\<lparr>command = ''SUBSCRIBE'', headers = [''id'' \<mapsto> ''1''], body = []\<rparr>"
              "\<lambda>n. ''id''" "0::nat" "empty_world (\<lambda>_. CLOSING)"]
  by (simp add: falsy_def empty_world_def)

text \<open>
  A chunk with a \<^verbatim>\<open>DISCONNECT\<close> frame followed by a \<^verbatim>\<open>SUBSCRIBE\<close> frame without
  headers: the first frame starts the closing of the socket, and the second gets no
  \<^verbatim>\<open>ERROR\<close> frame.
\<close>

theorem subscribe_after_disconnect_gets_no_error:
  "(let chunk = ''DISCONNECT'' @ [CHR 0x0A, CHR 0x0A, CHR 0x00]
                  @ ''SUBSCRIBE'' @ [CHR 0x0A, CHR 0x0A, CHR 0x00];
        w = on_message (\<lambda>n. ''id'') (0::nat) chunk (empty_world (\<lambda>_. OPEN))
    in map command (parseFrames chunk) = [''DISCONNECT'', ''SUBSCRIBE'']
       \<and> map (\<lambda>f. (headers f ''id'', headers f ''destination'')) (parseFrames chunk)
            = [(None, None), (None, None)]
       \<and> sent w = [] \<and> readyState w 0 = CLOSING)
   \<and> sent (handleFrame (\<lambda>n. ''id'') (0::nat)
              \<lparr>command = ''SUBSCRIBE'', headers = Map.empty, body = []\<rparr>
              (empty_world (\<lambda>_. CLOSING))) = []"
  by code_simp

text \<open>On a socket that is not open the guard of \<^verbatim>\<open>sendFrame\<close> drops the reply.\<close>

lemma subscribe_missing_header_not_open:
  assumes "command frame = ''SUBSCRIBE''"
    and "falsy (headers frame ''id'') \<or> falsy (headers frame ''destination'')"
    and "readyState w ws \<noteq> OPEN"
  shows "handleFrame randomUUID ws frame w = w"
  using assms by (auto simp: handleFrame_def falsy_def sendFrame_not_open split: option.splits)

text \<open>The SockJS binding replies in the same way, whatever the state of the transport.\<close>

lemma subscribe_missing_header_error_sockjs:
  assumes "command frame = ''SUBSCRIBE''"
    and "falsy (headers frame ''id'') \<or> falsy (headers frame ''destination'')"
  shows "handleFrame_sockjs randomUUID conn frame w =
           w\<lparr>sent := sent w @
               [(conn, frame_text ''ERROR''
                         [(''message'', ''Subscription requires id and destination'')]
                         ''Missing id or destination header'')]\<rparr>"
  using assms
  by (auto simp: handleFrame_sockjs_def falsy_def sendFrame_sockjs_def split: option.splits)

lemma subscribe_scenario:
  "parseFrames (''SUBSCRIBE'' @ [NL, NL, NUL]) = [\<lparr>command = ''SUBSCRIBE'', headers = Map.empty, body = []\<rparr>]"
  by (simp add: parseFrames_def parse_raw_def NL_def NUL_def List.map_filter_simps trim_def is_ws_def)

text \<open>
  C7: every broadcast is claimed to check the open state of a subscriber before it
  writes. Evaluated on the code: with a closed connection 1 subscribed to \<open>d\<close>, the
  broadcast of the SockJS binding calls \<open>send\<close> of that connection with a \<^verbatim>\<open>MESSAGE\<close>
  frame, while the broadcast of the native binding skips it. Such a subscriber arises
  from frames alone: connection 1 subscribes id \<open>s\<close> to \<open>d1\<close> and then to \<open>d2\<close>
  and closes; its close handler leaves the pair under \<open>d1\<close>, and a \<^verbatim>\<open>SEND\<close> to
  \<open>d1\<close> from connection 0 is written to the closed connection.
\<close>

theorem sockjs_broadcast_writes_to_closed:
  "(let w = addSubscription (1::nat) ''s'' ''d'' (empty_world (\<lambda>_. CLOSED))
    in sent (broadcast_sockjs (\<lambda>n. ''id'') ''d'' ''x'' w)
         = [(1, frame_text ''MESSAGE''
                  [(''subscription'', ''s''), (''destination'', ''d''), (''message-id'', ''id'')] ''x'')]
       \<and> sent (broadcast (\<lambda>n. ''id'') ''d'' ''x'' w) = [])
   \<and> (let u = (\<lambda>n. ''id'');
           w0 = registerConnection (1::nat) (registerConnection 0 (empty_world (\<lambda>_. OPEN)));
           w1 = on_data_sockjs u 1
                  (frame_text ''SUBSCRIBE'' [(''id'', ''s''), (''destination'', ''d1'')] []) w0;
           w2 = on_data_sockjs u 1
                  (frame_text ''SUBSCRIBE'' [(''id'', ''s''), (''destination'', ''d2'')] []) w1;
           w3 = on_close_sockjs 1 (w2\<lparr>readyState := (readyState w2)(1 := CLOSED)\<rparr>);
           w4 = on_data_sockjs u 0 (frame_text ''SEND'' [(''destination'', ''d1'')] ''x'') w3
       in sent w3 = [] \<and> readyState w4 1 = CLOSED
          \<and> sent w4 = [(1, frame_text ''MESSAGE''
                  [(''subscription'', ''s''), (''destination'', ''d1''), (''message-id'', ''id'')] ''x'')])"
  by code_simp

text \<open>The native binding never writes to a connection that is not open.\<close>

lemma native_broadcast_skips_closed:
  assumes "(ws, payload) \<in> set (sent (broadcast randomUUID destination bdy w))"
  shows "(ws, payload) \<in> set (sent w) \<or> readyState w ws = OPEN"
proof -
  let ?ps = "open_pairs w destination"
  from assms consider "(ws, payload) \<in> set (sent w)"
    | "(ws, payload) \<in> set (stamped randomUUID destination bdy (uuid_calls w) ?ps)"
    by (auto simp: broadcast_eq)
  then show ?thesis
  proof cases
    case 1
    then show ?thesis by simp
  next
    case 2
    then obtain i s where "(i, ws, s) \<in> set (enumerate (uuid_calls w) ?ps)"
      by (auto simp: stamped_def)
    then have "(ws, s) \<in> snd ` set (enumerate (uuid_calls w) ?ps)"
      by force
    also have "snd ` set (enumerate (uuid_calls w) ?ps) = set ?ps"
      by (metis map_snd_enumerate set_map)
    finally show ?thesis
      by (simp add: open_pairs_def)
  qed
qed

section \<open>The two bindings compared\<close>

lemma broadcast_subIds_sockjs_eq:
  "broadcast_subIds_sockjs u c d b subIds w =
     w\<lparr>uuid_calls := uuid_calls w + length subIds,
       sent := sent w @ stamped u d b (uuid_calls w) (map (Pair c) subIds)\<rparr>"
proof (induction subIds arbitrary: w)
  case Nil
  then show ?case by (simp add: stamped_def)
next
  case (Cons s subIds)
  show ?case
    by (simp add: Cons.IH sendFrame_sockjs_def Let_def stamped_def)
qed

lemma broadcast_entries_sockjs_eq:
  "broadcast_entries_sockjs u d b entries w =
     w\<lparr>uuid_calls := uuid_calls w
          + length (concat (map (\<lambda>(ws, subIds). map (Pair ws) subIds) entries)),
       sent := sent w @ stamped u d b (uuid_calls w)
                 (concat (map (\<lambda>(ws, subIds). map (Pair ws) subIds) entries))\<rparr>"
proof (induction entries arbitrary: w)
  case Nil
  then show ?case by (simp add: stamped_def)
next
  case (Cons e entries)
  obtain c subIds where e: "e = (c, subIds)" by (cases e)
  show ?case
    by (simp add: e Cons.IH broadcast_subIds_sockjs_eq stamped_append)
qed

lemma broadcast_sockjs_eq:
  "broadcast_sockjs u d b w =
     w\<lparr>uuid_calls := uuid_calls w + length (pairs_of w d),
       sent := sent w @ stamped u d b (uuid_calls w) (pairs_of w d)\<rparr>"
  by (cases "map_of (subscribersByDestination w) d")
     (simp_all add: broadcast_sockjs_def pairs_of_def broadcast_entries_sockjs_eq stamped_def)

lemma broadcast_sockjs_no_subscribers:
  "pairs_of w destination = [] \<Longrightarrow> broadcast_sockjs randomUUID destination bdy w = w"
  by (simp add: broadcast_sockjs_eq stamped_def)

lemma subscribers_open_pairs:
  assumes "subscribers_open w"
  shows "open_pairs w d = pairs_of w d"
proof (cases "map_of (subscribersByDestination w) d")
  case None
  then show ?thesis by (simp add: open_pairs_def pairs_of_def)
next
  case (Some entries)
  then have "(d, entries) \<in> set (subscribersByDestination w)" by (rule map_of_SomeD)
  with assms have "\<forall>(ws, subIds) \<in> set entries. readyState w ws = OPEN"
    by (auto simp: subscribers_open_def)
  then have "\<forall>p \<in> set (pairs_of w d). readyState w (fst p) = OPEN"
    using Some by (auto simp: pairs_of_def)
  then show ?thesis
    by (auto simp: open_pairs_def case_prod_unfold)
qed

lemma broadcast_bindings_agree:
  "subscribers_open w \<Longrightarrow> broadcast_sockjs u d b w = broadcast u d b w"
  by (simp add: broadcast_sockjs_eq broadcast_eq subscribers_open_pairs)

lemma sendFrame_bindings_agree:
  "readyState w c = OPEN \<Longrightarrow> sendFrame_sockjs c cmd hdrs bdy w = sendFrame c cmd hdrs bdy w"
  by (simp add: sendFrame_sockjs_def sendFrame_def)

lemma handleFrame_bindings_agree:
  assumes "readyState w c = OPEN" and "subscribers_open w"
  shows "handleFrame_sockjs u c f w = handleFrame u c f w"
  using assms
  by (simp add: handleFrame_sockjs_def handleFrame_def sendFrame_bindings_agree
        broadcast_bindings_agree split: option.splits)

lemma handleFrame_registry_agree:
  "subscriptionsByConn (handleFrame_sockjs u c f w) = subscriptionsByConn (handleFrame u c f w)
   \<and> subscribersByDestination (handleFrame_sockjs u c f w) = subscribersByDestination (handleFrame u c f w)
   \<and> readyState (handleFrame_sockjs u c f w) = readyState (handleFrame u c f w)"
  by (simp add: handleFrame_sockjs_def handleFrame_def sendFrame_sockjs_def sendFrame_def
        broadcast_sockjs_eq broadcast_eq split: option.splits)

text \<open>
  Where the handling connection and every connection listed in the destination index are
  open, the handlers of the two bindings return the same state; the decoders are the
  same in every case, and so are the indices and ready states the handlers leave.
\<close>

lemma handlers_agree_when_open:
  "parseFrames_sockjs chunk = parseFrames chunk
   \<and> subscriptionsByConn (handleFrame_sockjs u c f w) = subscriptionsByConn (handleFrame u c f w)
   \<and> subscribersByDestination (handleFrame_sockjs u c f w)
       = subscribersByDestination (handleFrame u c f w)
   \<and> readyState (handleFrame_sockjs u c f w) = readyState (handleFrame u c f w)
   \<and> (readyState w c = OPEN \<and> subscribers_open w
        \<longrightarrow> handleFrame_sockjs u c f w = handleFrame u c f w)"
  using handleFrame_registry_agree [of u c f w] handleFrame_bindings_agree [of w c u f]
  by (simp add: parseFrames_sockjs_def parseFrames_def)

text \<open>
  C9: the two bindings are claimed to emit the same outbound frames for every chunk and
  every state. Evaluated on the code: for the chunk of a \<^verbatim>\<open>DISCONNECT\<close> frame followed
  by a \<^verbatim>\<open>CONNECT\<close> frame, arriving on an open connection, both decoders return the two
  frames; the SockJS binding then sends a \<^verbatim>\<open>CONNECTED\<close> frame on the connection it has
  just closed, and the native binding sends nothing. For a \<^verbatim>\<open>SEND\<close> frame to a
  destination with a closed subscriber, the SockJS binding sends a \<^verbatim>\<open>MESSAGE\<close> frame to
  that subscriber and the native binding sends nothing, while both leave the same
  indices.
\<close>

theorem sockjs_handler_writes_where_native_skips:
  "(let u = (\<lambda>n. ''id'');
        chunk = ''DISCONNECT'' @ [CHR 0x0A, CHR 0x0A, CHR 0x00]
                  @ ''CONNECT'' @ [CHR 0x0A, CHR 0x0A, CHR 0x00];
        w = registerConnection (0::nat) (empty_world (\<lambda>_. OPEN))
    in map command (parseFrames_sockjs chunk) = [''DISCONNECT'', ''CONNECT'']
       \<and> map command (parseFrames chunk) = [''DISCONNECT'', ''CONNECT'']
       \<and> sent (on_data_sockjs u 0 chunk w)
            = [(0, ''CONNECTED'' @ [CHR 0x0A] @ ''version:1.2'' @ [CHR 0x0A, CHR 0x0A, CHR 0x00])]
       \<and> sent (on_message u 0 chunk w) = [])
   \<and> (let u = (\<lambda>n. ''id'');
           w = addSubscription (1::nat) ''s'' ''d''
                 (empty_world (\<lambda>c. if c = 1 then CLOSED else OPEN));
           f = \<lparr>command = ''SEND'', headers = [''destination'' \<mapsto> ''d''], body = ''x''\<rparr>
       in sent (handleFrame_sockjs u 0 f w)
            = [(1, ''MESSAGE'' @ [CHR 0x0A] @ ''subscription:s'' @ [CHR 0x0A]
                   @ ''destination:d'' @ [CHR 0x0A] @ ''message-id:id''
                   @ [CHR 0x0A, CHR 0x0A] @ ''x'' @ [CHR 0x00])]
          \<and> sent (handleFrame u 0 f w) = []
          \<and> subscriptionsByConn (handleFrame_sockjs u 0 f w) = subscriptionsByConn (handleFrame u 0 f w)
          \<and> subscribersByDestination (handleFrame_sockjs u 0 f w)
               = subscribersByDestination (handleFrame u 0 f w))"
  by code_simp

section \<open>Properties of the codec\<close>

subsection \<open>Encoding and decoding one frame\<close>

lemma split_not_Nil [simp]: "split sep s \<noteq> []"
  by (induction sep s rule: split.induct) (auto split: list.splits)

lemma split_char_append:
  "split [c] (xs @ c # ys) = split [c] xs @ split [c] ys"
proof (induction xs)
  case Nil
  then show ?case by simp
next
  case (Cons x xs)
  show ?case
  proof (cases "x = c")
    case True
    then show ?thesis using Cons by simp
  next
    case False
    obtain p ps where p: "split [c] xs = p # ps"
      by (cases "split [c] xs") auto
    with False Cons show ?thesis by simp
  qed
qed

lemma split_char_notin: "c \<notin> set xs \<Longrightarrow> split [c] xs = [xs]"
  by (induction xs) auto

lemma join_Cons: "join sep (p # ps) = p @ (if ps = [] then [] else sep @ join sep ps)"
  by (cases ps) auto

lemma join_split: "sep \<noteq> [] \<Longrightarrow> join sep (split sep s) = s"
proof (induction sep s rule: split.induct)
  case (1 sep)
  then show ?case by simp
next
  case (2 sep x xs)
  show ?case
  proof (cases "take (length sep) (x # xs) = sep")
    case True
    have "join sep (split sep (x # xs)) = sep @ join sep (split sep (drop (length sep) (x # xs)))"
      using True 2 by (simp add: join_Cons)
    also have "\<dots> = sep @ drop (length sep) (x # xs)"
      using True 2 by simp
    also have "\<dots> = take (length sep) (x # xs) @ drop (length sep) (x # xs)"
      using True by simp
    finally show ?thesis by (simp only: append_take_drop_id)
  next
    case False
    obtain p ps where p: "split sep xs = p # ps"
      by (cases "split sep xs") auto
    have "join sep (split sep xs) = xs" using False 2 by simp
    then have "join sep (p # ps) = xs" by (simp add: p)
    then have "join sep ((x # p) # ps) = x # xs" by (simp add: join_Cons)
    then show ?thesis using False p by simp
  qed
qed

lemma set_join: "set (join sep ls) \<subseteq> set sep \<union> \<Union> (set ` set ls)"
  by (induction sep ls rule: join.induct) auto

lemma split_blank_line:
  "no_blank_line l \<Longrightarrow> split [NL, NL] (l @ [NL, NL] @ b) = l # split [NL, NL] b"
  by (induction l rule: no_blank_line.induct) auto

lemma no_blank_line_append:
  "NL \<notin> set l \<Longrightarrow> l \<noteq> [] \<Longrightarrow> r \<noteq> [] \<Longrightarrow> hd r \<noteq> NL \<Longrightarrow> no_blank_line r
     \<Longrightarrow> no_blank_line (l @ NL # r)"
proof (induction l rule: no_blank_line.induct)
  case 1
  then show ?case by simp
next
  case (2 x)
  then show ?case by (cases r) auto
next
  case (3 x y zs)
  then show ?case by auto
qed

lemma no_blank_line_plain: "NL \<notin> set l \<Longrightarrow> no_blank_line l"
  by (induction l rule: no_blank_line.induct) auto

lemma hd_join: "l \<noteq> [] \<Longrightarrow> hd (join sep (l # ls)) = hd l"
  by (simp add: join_Cons)

lemma join_not_Nil: "l \<noteq> [] \<Longrightarrow> join sep (l # ls) \<noteq> []"
  by (simp add: join_Cons)

lemma no_blank_line_join:
  "ls \<noteq> [] \<Longrightarrow> \<forall>l \<in> set ls. l \<noteq> [] \<and> NL \<notin> set l \<Longrightarrow> no_blank_line (join [NL] ls)"
proof (induction ls)
  case Nil
  then show ?case by simp
next
  case (Cons l ls)
  show ?case
  proof (cases ls)
    case Nil
    then show ?thesis using Cons.prems by (simp add: no_blank_line_plain)
  next
    case (Cons l' ls')
    have r: "no_blank_line (join [NL] ls)" using Cons.IH Cons.prems Cons by simp
    have "l' \<noteq> []" "NL \<notin> set l'" using Cons.prems Cons by auto
    then have "join [NL] ls \<noteq> []" "hd (join [NL] ls) \<noteq> NL"
      using Cons by (auto simp: join_Cons) (metis hd_in_set)
    then have "no_blank_line (l @ NL # join [NL] ls)"
      using Cons.prems r by (intro no_blank_line_append) auto
    then show ?thesis using Cons by simp
  qed
qed

lemma split_join_lines:
  "ls \<noteq> [] \<Longrightarrow> \<forall>l \<in> set ls. NL \<notin> set l \<Longrightarrow> split [NL] (join [NL] ls) = ls"
proof (induction ls)
  case Nil
  then show ?case by simp
next
  case (Cons l ls)
  show ?case
  proof (cases ls)
    case Nil
    then show ?thesis using Cons.prems by (simp add: split_char_notin)
  next
    case (Cons l' ls')
    have "split [NL] (join [NL] (l # ls)) = split [NL] (l @ NL # join [NL] ls)"
      using Cons by simp
    also have "\<dots> = split [NL] l @ split [NL] (join [NL] ls)"
      by (rule split_char_append)
    also have "\<dots> = l # ls"
      using Cons.IH Cons.prems Cons by (simp add: split_char_notin)
    finally show ?thesis .
  qed
qed

lemma frame_text_lines:
  "frame_text c h b = join [NL] (c # map header_line h) @ [NL, NL] @ b @ [NUL]"
proof -
  have "l @ [NL] @ concat (map (\<lambda>(key, v). key @ '':'' @ v @ [NL]) h)
          = join [NL] (l # map header_line h) @ [NL]" for l
  proof (induction h arbitrary: l)
    case Nil
    then show ?case by simp
  next
    case (Cons kv h)
    obtain k v where kv: "kv = (k, v)" by (cases kv)
    show ?case
      using Cons.IH [of "k @ '':'' @ v"] by (simp add: kv header_line_def)
  qed
  from this [of c] show ?thesis
    by (simp add: frame_text_def)
qed

lemma parse_header_line:
  assumes "CHR '':'' \<notin> set k"
  shows "parse_header_lines (header_line (k, v) # ls) hs
           = parse_header_lines ls (set_header hs (trim k) (trim v))"
proof -
  have "takeWhile (\<lambda>x. x \<noteq> CHR '':'') (k @ CHR '':'' # v) = k"
    using assms by (auto simp: takeWhile_tail)
  then have "indexOf (header_line (k, v)) (CHR '':'') = int (length k)"
    by (simp add: indexOf_def header_line_def)
  then show ?thesis
    by (simp add: Let_def slice_def slice_from_def header_line_def)
qed

lemma parse_header_lines_encoded:
  assumes "\<forall>(k, v) \<in> set h. CHR '':'' \<notin> set k \<and> trim k \<noteq> ''__proto__''"
  shows "parse_header_lines (map header_line h) hs
           = hs ++ map_of (rev (map (\<lambda>(k, v). (trim k, trim v)) h))"
  using assms
proof (induction h arbitrary: hs)
  case Nil
  then show ?case by simp
next
  case (Cons kv h)
  obtain k v where kv: "kv = (k, v)" by (cases kv)
  have k: "CHR '':'' \<notin> set k" "trim k \<noteq> ''__proto__''"
    using Cons.prems kv by auto
  have "parse_header_lines (map header_line (kv # h)) hs
          = parse_header_lines (map header_line h) (hs(trim k \<mapsto> trim v))"
    using k by (simp add: kv parse_header_line set_header_def del: parse_header_lines.simps)
  also have "\<dots> = hs(trim k \<mapsto> trim v) ++ map_of (rev (map (\<lambda>(k, v). (trim k, trim v)) h))"
    using Cons.prems by (intro Cons.IH) auto
  also have "\<dots> = hs ++ map_of (rev (map (\<lambda>(k, v). (trim k, trim v)) (kv # h)))"
    by (simp add: kv map_of_append map_add_upd_left fun_eq_iff map_add_def split: option.splits)
  finally show ?case .
qed

lemma trim_not_Nil: "trim s \<noteq> [] \<Longrightarrow> s \<noteq> []"
  by (auto simp: trim_def)

lemma parse_raw_encoded:
  assumes "trim c \<noteq> []" "NL \<notin> set c"
    and "\<forall>(k, v) \<in> set h. NL \<notin> set k \<and> CHR '':'' \<notin> set k \<and> trim k \<noteq> ''__proto__''
           \<and> NL \<notin> set v"
  shows "parse_raw (join [NL] (c # map header_line h) @ [NL, NL] @ b)
           = Some \<lparr>command = trim c,
                   headers = map_of (rev (map (\<lambda>(k, v). (trim k, trim v)) h)),
                   body = b\<rparr>"
proof -
  let ?ls = "c # map header_line h"
  let ?l = "join [NL] ?ls"
  have c: "c \<noteq> []" using assms(1) by (rule trim_not_Nil)
  have lines: "\<forall>l \<in> set ?ls. l \<noteq> [] \<and> NL \<notin> set l"
    using assms(2,3) c by (auto simp: header_line_def NL_def)
  have l: "?l \<noteq> []" "hd ?l \<noteq> NL"
    using c assms(2) by (auto simp: join_Cons) (metis hd_in_set)
  then have raw: "?l @ [NL, NL] @ b \<noteq> []" "?l @ [NL, NL] @ b \<noteq> [NL]"
    by (auto simp: Cons_eq_append_conv)
  have s2: "split [NL, NL] (?l @ [NL, NL] @ b) = ?l # split [NL, NL] b"
    using lines by (intro split_blank_line no_blank_line_join) auto
  have s1: "filter (\<lambda>l. l \<noteq> []) (split [NL] ?l) = ?ls"
    using lines by (subst split_join_lines) (auto simp: filter_id_conv)
  have hs: "parse_header_lines (map header_line h) Map.empty
              = map_of (rev (map (\<lambda>(k, v). (trim k, trim v)) h))"
    using assms(3) by (subst parse_header_lines_encoded) auto
  show ?thesis
    unfolding parse_raw_def s2 using raw assms(1)
    by (simp add: s1 hs join_split del: join.simps)
qed

text \<open>
  C3: for a command that is not blank and has no NL or NUL, headers whose keys have no
  NL, NUL or colon and do not trim to \<^verbatim>\<open>__proto__\<close> and whose values have no NL or NUL,
  and a body without NUL, decoding the encoded frame yields exactly one frame: its
  command is the trimmed command, its headers are the trimmed pairs (a later pair wins
  over an earlier one with the same trimmed key), and its body is the body.
\<close>

theorem encode_decode_round_trip:
  assumes "trim c \<noteq> []" and "NL \<notin> set c" and "NUL \<notin> set c"
    and "\<forall>(k, v) \<in> set h. NL \<notin> set k \<and> NUL \<notin> set k \<and> CHR '':'' \<notin> set k
           \<and> trim k \<noteq> ''__proto__'' \<and> NL \<notin> set v \<and> NUL \<notin> set v"
    and "NUL \<notin> set b"
  shows "parseFrames (frame_text c h b)
           = [\<lparr>command = trim c,
                headers = map_of (rev (map (\<lambda>(k, v). (trim k, trim v)) h)),
                body = b\<rparr>]"
proof -
  let ?raw = "join [NL] (c # map header_line h) @ [NL, NL] @ b"
  have "NUL \<notin> set (join [NL] ls)" if "\<forall>l \<in> set ls. NUL \<notin> set l" for ls
    using that set_join [of "[NL]" ls] by (auto simp: NUL_def NL_def)
  moreover have "\<forall>l \<in> set (c # map header_line h). NUL \<notin> set l"
    using assms(3,4) by (auto simp: header_line_def NUL_def)
  ultimately have "NUL \<notin> set ?raw"
    using assms(5) by (auto simp: NUL_def NL_def)
  then have "split [NUL] ?raw = [?raw]"
    by (rule split_char_notin)
  moreover have "split [NUL] (?raw @ NUL # []) = split [NUL] ?raw @ split [NUL] []"
    by (rule split_char_append)
  ultimately have "split [NUL] (?raw @ [NUL]) = [?raw, []]"
    by simp
  moreover have "parse_raw ?raw = Some \<lparr>command = trim c,
                   headers = map_of (rev (map (\<lambda>(k, v). (trim k, trim v)) h)),
                   body = b\<rparr>"
    using assms by (intro parse_raw_encoded) auto
  moreover have "parse_raw [] = None" by (simp add: parse_raw_def)
  ultimately show ?thesis
    by (simp add: parseFrames_def frame_text_lines List.map_filter_simps)
qed

text \<open>
  Outside these conditions the round trip fails: an empty command yields no frame, a
  padded command comes back trimmed, a value with a newline is cut at the newline, a key
  with a colon is split at the colon, the key \<^verbatim>\<open>__proto__\<close> is dropped, and a NUL in a
  value ends the frame early.
\<close>

theorem round_trip_fails:
  "length (parseFrames (frame_text [] [] [])) = 0
   \<and> map command (parseFrames (frame_text '' A'' [] [])) = [''A'']
   \<and> map (\<lambda>f. headers f ''k'') (parseFrames (frame_text ''A'' [(''k'', ''a'' @ [NL] @ ''b'')] []))
        = [Some ''a'']
   \<and> map (\<lambda>f. (headers f ''a:b'', headers f ''a'')) (parseFrames (frame_text ''A'' [(''a:b'', ''c'')] []))
        = [(None, Some ''b:c'')]
   \<and> map (\<lambda>f. headers f ''__proto__'') (parseFrames (frame_text ''A'' [(''__proto__'', ''x'')] []))
        = [None]
   \<and> map command (parseFrames (frame_text ''A'' [(''k'', ''a'' @ [NUL] @ ''b'')] [])) = [''A'', ''b'']"
  by code_simp

theorem encode_decode_round_trip_witness:
  "trim ''SEND'' \<noteq> [] \<and> NL \<notin> set ''SEND'' \<and> NUL \<notin> set ''SEND'' \<and> NUL \<notin> set ''Hello''
   \<and> parseFrames (frame_text ''SEND'' [(''destination'', '' news ''), (''x'', ''1'')] ''Hello'')
       = [\<lparr>command = ''SEND'', headers = [''destination'' \<mapsto> ''news'', ''x'' \<mapsto> ''1''],
           body = ''Hello''\<rparr>]"
proof -
  have h1: "trim ''SEND'' \<noteq> []" by code_simp
  have h2: "NL \<notin> set ''SEND''" "NUL \<notin> set ''SEND''" "NUL \<notin> set ''Hello''"
    by (simp_all add: NL_def NUL_def)
  have h3: "\<forall>(k, v) \<in> set [(''destination'', '' news ''), (''x'', ''1'')].
              NL \<notin> set k \<and> NUL \<notin> set k \<and> CHR '':'' \<notin> set k
              \<and> trim k \<noteq> ''__proto__'' \<and> NL \<notin> set v \<and> NUL \<notin> set v"
    by code_simp
  have t: "trim ''SEND'' = ''SEND''" "trim ''destination'' = ''destination''"
    "trim '' news '' = ''news''" "trim ''x'' = ''x''" "trim ''1'' = ''1''"
    by code_simp+
  have "map_of (rev (map (\<lambda>(k, v). (trim k, trim v)) [(''destination'', '' news ''), (''x'', ''1'')]))
          = [''destination'' \<mapsto> ''news'', ''x'' \<mapsto> ''1'']"
    by (auto simp: t fun_eq_iff)
  then show ?thesis
    using encode_decode_round_trip [OF h1 h2(1,2) h3 h2(3)] h1 h2 by (simp add: t)
qed

subsection \<open>A frame cut into two chunks\<close>

lemma split_no_adjacent: "no_adjacent_NL x \<Longrightarrow> split [NL, NL] x = [x]"
  by (induction x rule: no_adjacent_NL.induct) auto

lemma no_adjacent_take: "no_adjacent_NL x \<Longrightarrow> no_adjacent_NL (take i x)"
proof (induction x arbitrary: i rule: no_adjacent_NL.induct)
  case (1 x y zs)
  show ?case
  proof (cases i)
    case 0
    then show ?thesis by simp
  next
    case (Suc j)
    have "no_adjacent_NL (take j (y # zs))" using 1 by simp
    then show ?thesis using 1(2) Suc by (cases j) auto
  qed
next
  case "2_1"
  then show ?case by simp
next
  case "2_2"
  then show ?case by (cases i) auto
qed

lemma no_blank_line_no_adjacent: "no_blank_line l \<Longrightarrow> no_adjacent_NL (l @ [NL])"
  by (induction l rule: no_blank_line.induct) auto

lemma parse_raw_body_short:
  assumes "parse_raw r = Some f"
  shows "body f = [] \<or> length (body f) + 2 \<le> length r"
proof -
  obtain first parts where sp: "split [NL, NL] r = first # parts"
    by (cases "split [NL, NL] r") auto
  have b: "body f = join [NL, NL] parts"
    using assms sp
    by (auto simp: parse_raw_def Let_def split: if_splits list.splits)
  have "join [NL, NL] (first # parts) = r"
    using join_split [of "[NL, NL]" r] sp by simp
  then have "parts \<noteq> [] \<Longrightarrow> length r = length first + 2 + length (join [NL, NL] parts)"
    by (auto simp: join_Cons)
  then show ?thesis
    using b by (cases "parts = []") auto
qed

lemma parse_raw_blank_first: "parse_raw (NL # NL # b) = None"
  by (simp add: parse_raw_def NL_def split: list.splits)

lemma prefix_join_lines:
  "ls \<noteq> [] \<Longrightarrow> prefix x (join [NL] ls) \<Longrightarrow>
     \<exists>p m. m < length ls \<and> prefix p (ls ! m) \<and> x = join [NL] (take m ls @ [p])"
proof (induction ls arbitrary: x)
  case Nil
  then show ?case by simp
next
  case (Cons l ls)
  show ?case
  proof (cases ls)
    case Nil
    then have "prefix x l" using Cons.prems by simp
    then show ?thesis by (intro exI [of _ x] exI [of _ 0]) simp
  next
    case ls: (Cons l' ls')
    have "prefix x (l @ NL # join [NL] ls)" using Cons.prems ls by simp
    then consider "prefix x l" | us where "x = l @ NL # us" "prefix us (join [NL] ls)"
      by (auto simp: prefix_append prefix_Cons)
    then show ?thesis
    proof cases
      case 1
      then show ?thesis by (intro exI [of _ x] exI [of _ 0]) simp
    next
      case 2
      from Cons.IH [OF _ 2(2)] ls obtain p m where
        pm: "m < length ls" "prefix p (ls ! m)" "us = join [NL] (take m ls @ [p])"
        by auto
      have "x = join [NL] (take (Suc m) (l # ls) @ [p])"
        using 2(1) pm(3) by (cases "take m ls @ [p]") auto
      then show ?thesis
        using pm(1,2) by (intro exI [of _ p] exI [of _ "Suc m"]) simp
    qed
  qed
qed

lemma suffix_join_lines:
  "ls \<noteq> [] \<Longrightarrow> suffix x (join [NL] ls) \<Longrightarrow>
     \<exists>s m. m < length ls \<and> suffix s (ls ! m) \<and> x = join [NL] (s # drop (Suc m) ls)"
proof (induction ls)
  case Nil
  then show ?case by simp
next
  case (Cons l ls)
  show ?case
  proof (cases ls)
    case Nil
    then have "suffix x l" using Cons.prems by simp
    then show ?thesis using Nil by (intro exI [of _ x] exI [of _ 0]) simp
  next
    case ls: (Cons l' ls')
    have "suffix x (l @ NL # join [NL] ls)" using Cons.prems ls by simp
    then consider "suffix x (join [NL] ls)"
      | s where "x = s @ NL # join [NL] ls" "suffix s l"
      by (auto simp: suffix_append suffix_Cons)
    then show ?thesis
    proof cases
      case 1
      from Cons.IH [OF _ 1] ls obtain s m where
        "m < length ls" "suffix s (ls ! m)" "x = join [NL] (s # drop (Suc m) ls)"
        by auto
      then show ?thesis
        by (intro exI [of _ s] exI [of _ "Suc m"]) simp
    next
      case 2
      then show ?thesis
        using ls by (intro exI [of _ s] exI [of _ 0]) simp
    qed
  qed
qed

lemma length_trim_le: "length (trim s) \<le> length s"
proof -
  have "length (dropWhile is_ws (rev (dropWhile is_ws s))) \<le> length (rev (dropWhile is_ws s))"
    by (rule length_dropWhile_le)
  also have "\<dots> \<le> length s" by (simp add: length_dropWhile_le)
  finally show ?thesis by (simp add: trim_def)
qed

lemma parse_header_lines_append:
  "parse_header_lines (xs @ ys) hs = parse_header_lines ys (parse_header_lines xs hs)"
  by (induction xs arbitrary: hs) (simp_all add: Let_def)

lemma parse_raw_no_adjacent:
  "no_adjacent_NL x \<Longrightarrow> parse_raw x = decode_lines (split [NL] x) []"
proof -
  assume x: "no_adjacent_NL x"
  show ?thesis
  proof (cases "x = [] \<or> x = [NL]")
    case True
    then show ?thesis by (auto simp: parse_raw_def decode_lines_def)
  next
    case False
    then show ?thesis
      using split_no_adjacent [OF x]
      by (simp add: parse_raw_def decode_lines_def Let_def split: list.splits)
  qed
qed

lemma parse_raw_blank_line:
  "no_blank_line s \<Longrightarrow> parse_raw (s @ [NL, NL] @ b) = decode_lines (split [NL] s) b"
proof -
  assume s: "no_blank_line s"
  have "s @ [NL, NL] @ b \<noteq> [NL]" by (cases s) auto
  then show ?thesis
    using split_blank_line [OF s, of b]
    by (simp add: parse_raw_def decode_lines_def join_split Let_def del: join.simps
          split: list.splits)
qed

lemma no_blank_line_drop: "no_blank_line l \<Longrightarrow> no_blank_line (drop i l)"
proof (induction l arbitrary: i rule: no_blank_line.induct)
  case 1
  then show ?case by simp
next
  case (2 x)
  then show ?case by (cases i) auto
next
  case (3 x y zs)
  then show ?case by (cases i) auto
qed

lemma header_line_not_Nil [simp]: "header_line kv \<noteq> []"
  by (cases kv) (simp add: header_line_def)

lemma parse_line_without_colon:
  "CHR '':'' \<notin> set p \<Longrightarrow> parse_header_lines (p # ls) hs = parse_header_lines ls hs"
  by (simp add: indexOf_def)

lemma canonical_headers:
  assumes "canonical_frame c h b" and "set h' \<subseteq> set h"
  shows "parse_header_lines (map header_line h') hs = hs ++ map_of (rev h')"
proof -
  have "\<forall>(k, v) \<in> set h'. trim k = k \<and> trim v = v \<and> CHR '':'' \<notin> set k \<and> k \<noteq> ''__proto__''"
    using assms by (fastforce simp: canonical_frame_def)
  then have "map (\<lambda>(k, v). (trim k, trim v)) h' = h'"
    and "\<forall>(k, v) \<in> set h'. CHR '':'' \<notin> set k \<and> trim k \<noteq> ''__proto__''"
    by (auto intro!: map_idI)
  then show ?thesis
    using parse_header_lines_encoded [of h' hs] by simp
qed

lemma key_present:
  "distinct (map fst h) \<Longrightarrow> j < length h \<Longrightarrow> map_of h (fst (h ! j)) = Some (snd (h ! j))"
  by (simp add: nth_mem)

lemma key_absent_take:
  assumes "distinct (map fst h)" "q \<le> j" "j < length h"
  shows "map_of (rev (take q h)) (fst (h ! j)) = None"
proof -
  have "distinct (map fst (take q h) @ map fst (drop q h))"
    using assms(1) by (simp flip: map_append)
  moreover have "fst (h ! j) \<in> set (map fst (drop q h))"
    using assms(2,3) by (auto simp: set_conv_nth image_iff intro!: exI [of _ "j - q"])
  ultimately have "fst (h ! j) \<notin> fst ` set (take q h)"
    by auto
  then show ?thesis
    by (simp add: map_of_eq_None_iff)
qed

lemma key_absent_drop:
  assumes "distinct (map fst h)" "j < length h"
  shows "map_of (rev (drop (Suc j) h)) (fst (h ! j)) = None"
proof -
  have "distinct (map fst (take (Suc j) h) @ map fst (drop (Suc j) h))"
    using assms(1) by (simp flip: map_append)
  moreover have "fst (h ! j) \<in> set (map fst (take (Suc j) h))"
    using assms(2) by (auto simp: set_conv_nth image_iff intro!: exI [of _ j])
  ultimately have "fst (h ! j) \<notin> fst ` set (drop (Suc j) h)"
    by auto
  then show ?thesis
    by (simp add: map_of_eq_None_iff)
qed

lemma trim_shorter: "length s < length c \<Longrightarrow> trim s \<noteq> c"
  using length_trim_le [of s] by auto

lemma canonical_nth:
  assumes "canonical_frame c h b" "j < length h"
  obtains k v where "h ! j = (k, v)" "trim k = k" "trim v = v" "CHR '':'' \<notin> set k"
    "k \<noteq> ''__proto__''" "NL \<notin> set k" "NL \<notin> set v"
proof -
  obtain k v where kv: "h ! j = (k, v)" by (cases "h ! j")
  have "(k, v) \<in> set h" using assms(2) kv by (metis nth_mem)
  then have "trim k = k \<and> trim v = v \<and> CHR '':'' \<notin> set k \<and> k \<noteq> ''__proto__''
      \<and> NL \<notin> set k \<and> NL \<notin> set v"
    using assms(1) by (fastforce simp: canonical_frame_def)
  then show ?thesis using kv that by blast
qed

lemma canonical_lines:
  assumes "canonical_frame c h b"
  shows "\<forall>l \<in> set (c # map header_line h). l \<noteq> [] \<and> NL \<notin> set l"
  using assms by (fastforce simp: canonical_frame_def header_line_def NL_def)

lemma filter_nonempty_lines:
  "\<forall>l \<in> set ls. l \<noteq> [] \<Longrightarrow> filter (\<lambda>l. l \<noteq> []) ls = ls"
  by (simp add: filter_id_conv)

lemma suffix_lines_differ:
  assumes can: "canonical_frame c h b"
    and m: "m < length (c # map header_line h)"
    and s: "suffix s ((c # map header_line h) ! m)"
    and proper: "\<not> (m = 0 \<and> s = c)"
  shows "decode_lines (s # drop (Suc m) (c # map header_line h)) bdy
           \<noteq> Some \<lparr>command = c, headers = map_of h, body = bdy'\<rparr>"
proof -
  have dist: "distinct (map fst h)" using can by (simp add: canonical_frame_def)
  have rest: "drop (Suc m) (c # map header_line h) = map header_line (drop m h)"
    by (simp add: drop_map)
  have ne: "filter (\<lambda>l. l \<noteq> []) (map header_line h') = map header_line h'" for h'
    by (simp add: filter_id_conv)
  have hdrs: "parse_header_lines (map header_line (drop j h)) Map.empty = map_of (rev (drop j h))" for j
    using canonical_headers [OF can, of "drop j h" Map.empty] by (simp add: set_drop_subset)
  show ?thesis
  proof (cases "s = []")
    case True
    show ?thesis
    proof (cases "drop m h")
      case Nil
      then show ?thesis using True by (simp add: decode_lines_def rest)
    next
      case (Cons kv h')
      then have mh: "m < length h" by (cases "m < length h") auto
      have h': "h' = drop (Suc m) h" using Cons by (metis drop_Suc list.sel(3) tl_drop)
      have "s # drop (Suc m) (c # map header_line h) = [] # header_line kv # map header_line h'"
        using True Cons by (simp add: drop_map)
      then have "decode_lines (s # drop (Suc m) (c # map header_line h)) bdy
          = (if trim (header_line kv) = [] then None
             else Some \<lparr>command = trim (header_line kv),
                        headers = map_of (rev (drop (Suc m) h)), body = bdy\<rparr>)"
        using hdrs [of "Suc m"] by (simp add: decode_lines_def ne h' Let_def)
      moreover have "map_of (rev (drop (Suc m) h)) \<noteq> map_of h"
        using key_absent_drop [OF dist mh] key_present [OF dist mh] by auto
      ultimately show ?thesis by auto
    qed
  next
    case False
    show ?thesis
    proof (cases m)
      case 0
      then have "suffix s c" "s \<noteq> c" using s proper by auto
      then have "length s < length c"
        by (metis suffix_length_less strict_suffix_def)
      then have "trim s \<noteq> c" by (rule trim_shorter)
      then show ?thesis
        using False by (auto simp: decode_lines_def Let_def)
    next
      case (Suc q)
      then have qh: "q < length h" using m by simp
      have "s # drop (Suc m) (c # map header_line h) = s # map header_line (drop (Suc q) h)"
        using Suc by (simp add: drop_map)
      then have "decode_lines (s # drop (Suc m) (c # map header_line h)) bdy
          = (if trim s = [] then None
             else Some \<lparr>command = trim s,
                        headers = map_of (rev (drop (Suc q) h)), body = bdy\<rparr>)"
        using False hdrs [of "Suc q"] by (simp add: decode_lines_def ne Let_def)
      moreover have "map_of (rev (drop (Suc q) h)) \<noteq> map_of h"
        using key_absent_drop [OF dist qh] key_present [OF dist qh] by auto
      ultimately show ?thesis by auto
    qed
  qed
qed

lemma prefix_header_line:
  assumes "prefix p (header_line (k, v))" "CHR '':'' \<notin> set k" "CHR '':'' \<in> set p"
  obtains v' where "p = header_line (k, v')" "prefix v' v"
proof -
  from assms(1) consider "prefix p k" | us where "p = k @ us" "prefix us (CHR '':'' # v)"
    by (auto simp: header_line_def prefix_append)
  then show ?thesis
  proof cases
    case 1
    then have "set p \<subseteq> set k" by (rule set_mono_prefix)
    then show ?thesis using assms(2,3) by auto
  next
    case 2
    then show ?thesis
      using assms(2,3) that by (auto simp: prefix_Cons header_line_def)
  qed
qed

lemma prefix_lines_differ:
  assumes can: "canonical_frame c h b"
    and m: "m < length (c # map header_line h)"
    and p: "prefix p ((c # map header_line h) ! m)"
    and proper: "\<not> (Suc m = length (c # map header_line h) \<and> p = (c # map header_line h) ! m)"
  shows "decode_lines (take m (c # map header_line h) @ [p]) bdy
           \<noteq> Some \<lparr>command = c, headers = map_of h, body = bdy'\<rparr>"
proof (cases m)
  case 0
  show ?thesis
  proof (cases "p = c")
    case True
    then have "h \<noteq> []" using proper 0 by auto
    then have "map_of h (fst (hd h)) \<noteq> None"
      by (cases h) auto
    then have "map_of h \<noteq> Map.empty" by metis
    then show ?thesis
      using 0 True by (auto simp: decode_lines_def Let_def)
  next
    case False
    then have "length p < length c"
      using p 0 by (metis nth_Cons_0 prefix_length_less strict_prefix_def)
    then have "trim p \<noteq> c" by (rule trim_shorter)
    then show ?thesis
      using 0 by (auto simp: decode_lines_def Let_def)
  qed
next
  case (Suc q)
  then have qh: "q < length h" using m by simp
  have dist: "distinct (map fst h)" using can by (simp add: canonical_frame_def)
  from canonical_nth [OF can qh] obtain k v where
    kv: "h ! q = (k, v)" "trim k = k" "trim v = v" "CHR '':'' \<notin> set k" "k \<noteq> ''__proto__''"
    by metis
  have pl: "prefix p (header_line (k, v))" using p Suc qh kv by simp
  have c: "c \<noteq> []" using can by (simp add: canonical_frame_def)
  let ?M = "map_of (rev (take q h))"
  have M: "parse_header_lines (map header_line (take q h)) Map.empty = ?M"
    using canonical_headers [OF can, of "take q h" Map.empty] by (simp add: set_take_subset)
  have tk: "take m (c # map header_line h) = c # map header_line (take q h)"
    using Suc by (simp add: take_map)
  have orig: "map_of h k = Some v"
    using key_present [OF dist qh] kv by simp
  have Mk: "?M k = None"
    using key_absent_take [OF dist _ qh, of q] kv by simp
  have dec: "decode_lines (take m (c # map header_line h) @ [p]) bdy
        = (if trim c = [] then None
           else Some \<lparr>command = trim c,
                      headers = parse_header_lines (if p = [] then [] else [p]) ?M,
                      body = bdy\<rparr>)"
    using c by (simp add: decode_lines_def tk filter_id_conv parse_header_lines_append M Let_def
                  del: parse_header_lines.simps)
  have differ: ?thesis
    if "parse_header_lines (if p = [] then [] else [p]) ?M = H" "H \<noteq> map_of h" for H
    using dec that by (auto split: if_splits)
  show ?thesis
  proof (cases "CHR '':'' \<in> set p")
    case False
    then have "parse_header_lines (if p = [] then [] else [p]) ?M = ?M"
      by (simp add: indexOf_def)
    moreover have "?M \<noteq> map_of h"
      using orig Mk by auto
    ultimately show ?thesis by (rule differ)
  next
    case True
    from prefix_header_line [OF pl kv(4) True] obtain v' where
      v': "p = header_line (k, v')" "prefix v' v" by blast
    have hp: "parse_header_lines (if p = [] then [] else [p]) ?M = ?M(k \<mapsto> trim v')"
      using kv by (simp add: v'(1) parse_header_line set_header_def del: parse_header_lines.simps(2))
    show ?thesis
    proof (cases "v' = v")
      case False
      then have "length v' < length v"
        using v'(2) by (metis prefix_length_less strict_prefix_def)
      then have "trim v' \<noteq> v" by (rule trim_shorter)
      then have "(?M(k \<mapsto> trim v')) k \<noteq> map_of h k"
        using orig by simp
      then have "?M(k \<mapsto> trim v') \<noteq> map_of h" by metis
      with hp show ?thesis by (rule differ)
    next
      case same: True
      then have "p = (c # map header_line h) ! m"
        using v'(1) Suc qh kv by simp
      then have more: "Suc q < length h" using proper Suc qh by auto
      have ne: "fst (h ! Suc q) \<noteq> k"
        using dist more qh kv(1)
        by (metis distinct_conv_nth fst_conv length_map n_not_Suc_n nth_map)
      have "?M (fst (h ! Suc q)) = None"
        using key_absent_take [OF dist _ more, of q] by simp
      then have "(?M(k \<mapsto> trim v')) (fst (h ! Suc q)) = None"
        using ne by simp
      moreover have "map_of h (fst (h ! Suc q)) \<noteq> None"
        using key_present [OF dist more] by simp
      ultimately have "?M(k \<mapsto> trim v') \<noteq> map_of h" by metis
      with hp show ?thesis by (rule differ)
    qed
  qed
qed

lemma decode_lines_body: "decode_lines ls bdy = Some f \<Longrightarrow> body f = bdy"
  by (auto simp: decode_lines_def Let_def split: list.splits if_splits)

lemma canonical_text:
  assumes "canonical_frame c h b"
  shows "no_blank_line (join [NL] (c # map header_line h))"
    and "NUL \<notin> set (join [NL] (c # map header_line h) @ [NL, NL] @ b)"
proof -
  show "no_blank_line (join [NL] (c # map header_line h))"
    using canonical_lines [OF assms] by (intro no_blank_line_join) auto
  have "\<forall>l \<in> set (c # map header_line h). NUL \<notin> set l"
    using assms by (fastforce simp: canonical_frame_def header_line_def NUL_def)
  then have "NUL \<notin> set (join [NL] (c # map header_line h))"
    using set_join [of "[NL]" "c # map header_line h"] by (auto simp: NUL_def NL_def)
  then show "NUL \<notin> set (join [NL] (c # map header_line h) @ [NL, NL] @ b)"
    using assms by (auto simp: canonical_frame_def NUL_def NL_def)
qed

lemma parseFrames_single:
  "NUL \<notin> set x \<Longrightarrow> f \<in> set (parseFrames x) \<Longrightarrow> parse_raw x = Some f"
  by (auto simp: parseFrames_def split_char_notin List.map_filter_simps split: if_splits option.splits)

lemma parseFrames_terminated:
  assumes "NUL \<notin> set x" "f \<in> set (parseFrames (x @ [NUL]))"
  shows "parse_raw x = Some f"
proof -
  have "split [NUL] (x @ NUL # []) = split [NUL] x @ split [NUL] []"
    by (rule split_char_append)
  then have "split [NUL] (x @ [NUL]) = [x, []]"
    using assms(1) by (simp add: split_char_notin)
  moreover have "parse_raw [] = None" by (simp add: parse_raw_def)
  ultimately show ?thesis
    using assms(2) by (auto simp: parseFrames_def List.map_filter_simps split: option.splits)
qed

lemma take_prefix_part: "i \<le> length xs \<Longrightarrow> take i (xs @ ys) = take i xs"
  by simp

lemma first_chunk_differs:
  assumes can: "canonical_frame c h b"
    and i: "i + 1 < length (frame_text c h b)"
    and e: "b = [] \<longrightarrow> i + 3 < length (frame_text c h b)"
  shows "\<lparr>command = c, headers = map_of h, body = b\<rparr> \<notin> set (parseFrames (take i (frame_text c h b)))"
proof
  let ?ls = "c # map header_line h"
  let ?L = "join [NL] ?ls"
  let ?F = "\<lparr>command = c, headers = map_of h, body = b\<rparr>"
  let ?x = "take i (?L @ [NL, NL] @ b)"
  assume "?F \<in> set (parseFrames (take i (frame_text c h b)))"
  moreover have len: "length (frame_text c h b) = length ?L + 3 + length b"
    by (simp add: frame_text_lines)
  have "take i ((?L @ [NL, NL] @ b) @ [NUL])
          = ?x @ take (i - length (?L @ [NL, NL] @ b)) [NUL]"
    by (rule take_append)
  then have x: "take i (frame_text c h b) = ?x"
    using i len by (simp add: frame_text_lines)
  moreover have "NUL \<notin> set ?x"
    using canonical_text(2) [OF can] by (meson in_set_takeD)
  ultimately have raw: "parse_raw ?x = Some ?F"
    by (simp add: parseFrames_single)
  have nb: "no_blank_line ?L" by (rule canonical_text(1) [OF can])
  show False
  proof (cases "length ?L + 2 \<le> i")
    case True
    then obtain j where j: "i = length ?L + 2 + j"
      by (metis le_iff_add)
    then have "?x = ?L @ [NL, NL] @ take j b"
      by simp
    then have "parse_raw ?x = decode_lines (split [NL] ?L) (take j b)"
      using parse_raw_blank_line [OF nb] by simp
    then have "b = take j b"
      using raw decode_lines_body by fastforce
    then have "length b \<le> j"
      by (metis length_take min.cobounded2)
    then show False using i len j by simp
  next
    case False
    have "take i ((?L @ [NL]) @ NL # b) = take i (?L @ [NL])"
      by (rule take_prefix_part) (use False in simp)
    then have "?x = take i (?L @ [NL])" by simp
    then have "no_adjacent_NL ?x"
      using no_blank_line_no_adjacent [OF nb] by (simp add: no_adjacent_take del: take_append)
    then have dec: "parse_raw ?x = decode_lines (split [NL] ?x) []"
      by (rule parse_raw_no_adjacent)
    then have "b = []"
      using raw decode_lines_body by fastforce
    then have short: "i < length ?L" using e len by simp
    then have xL: "?x = take i ?L" by simp
    then have "prefix ?x ?L" by (simp add: take_is_prefix)
    from prefix_join_lines [OF _ this] obtain p m where
      pm: "m < length ?ls" "prefix p (?ls ! m)" "?x = join [NL] (take m ?ls @ [p])"
      by auto
    have nl: "\<forall>l \<in> set ?ls. NL \<notin> set l" using canonical_lines [OF can] by blast
    then have "NL \<notin> set p"
      using pm(1,2) by (meson nth_mem set_mono_prefix subsetD)
    moreover have "\<forall>l \<in> set (take m ?ls). NL \<notin> set l"
      using nl by (meson in_set_takeD)
    ultimately have "split [NL] ?x = take m ?ls @ [p]"
      unfolding pm(3) by (intro split_join_lines) auto
    moreover have "\<not> (Suc m = length ?ls \<and> p = ?ls ! m)"
    proof
      assume "Suc m = length ?ls \<and> p = ?ls ! m"
      then have "take m ?ls @ [p] = ?ls"
        by (metis lessI take_Suc_conv_app_nth take_all order_refl)
      then have "?x = ?L" using pm(3) by simp
      then show False using short xL by (metis length_take min.absorb2 less_imp_le nat_neq_iff)
    qed
    ultimately show False
      using prefix_lines_differ [OF can pm(1,2), of "[]" b] dec raw by simp
  qed
qed

lemma second_chunk_differs:
  assumes can: "canonical_frame c h b"
    and i0: "0 < i"
    and i: "i + 1 < length (frame_text c h b)"
    and e: "b = [] \<longrightarrow> i + 3 < length (frame_text c h b)"
  shows "\<lparr>command = c, headers = map_of h, body = b\<rparr> \<notin> set (parseFrames (drop i (frame_text c h b)))"
proof
  let ?ls = "c # map header_line h"
  let ?L = "join [NL] ?ls"
  let ?F = "\<lparr>command = c, headers = map_of h, body = b\<rparr>"
  let ?y = "drop i (?L @ [NL, NL] @ b)"
  assume "?F \<in> set (parseFrames (drop i (frame_text c h b)))"
  moreover have len: "length (frame_text c h b) = length ?L + 3 + length b"
    by (simp add: frame_text_lines)
  have "drop i ((?L @ [NL, NL] @ b) @ [NUL])
          = ?y @ drop (i - length (?L @ [NL, NL] @ b)) [NUL]"
    by (rule drop_append)
  then have "drop i (frame_text c h b) = ?y @ [NUL]"
    using i len by (simp add: frame_text_lines)
  moreover have "NUL \<notin> set ?y"
    using canonical_text(2) [OF can] by (meson in_set_dropD)
  ultimately have raw: "parse_raw ?y = Some ?F"
    by (simp add: parseFrames_terminated)
  have nb: "no_blank_line ?L" by (rule canonical_text(1) [OF can])
  consider "i < length ?L" | "i = length ?L" | "length ?L < i" by linarith
  then show False
  proof cases
    case 1
    let ?S = "drop i ?L"
    have y: "?y = ?S @ [NL, NL] @ b" using 1 by simp
    have "no_blank_line ?S" using nb by (rule no_blank_line_drop)
    then have dec: "parse_raw ?y = decode_lines (split [NL] ?S) b"
      unfolding y by (rule parse_raw_blank_line)
    have "suffix ?S ?L" by (rule suffix_drop)
    from suffix_join_lines [OF _ this] obtain s m where
      sm: "m < length ?ls" "suffix s (?ls ! m)" "?S = join [NL] (s # drop (Suc m) ?ls)"
      by auto
    have nl: "\<forall>l \<in> set ?ls. NL \<notin> set l" using canonical_lines [OF can] by blast
    then have "NL \<notin> set s"
      using sm(1,2) by (meson nth_mem set_mono_suffix subsetD)
    moreover have "\<forall>l \<in> set (drop (Suc m) ?ls). NL \<notin> set l"
      using nl by (meson in_set_dropD)
    ultimately have "split [NL] ?S = s # drop (Suc m) ?ls"
      unfolding sm(3) by (intro split_join_lines) auto
    moreover have "\<not> (m = 0 \<and> s = c)"
    proof
      assume "m = 0 \<and> s = c"
      then have "?S = ?L" using sm(3) by simp
      then have "length ?S = length ?L" by simp
      then show False using 1 i0 by simp
    qed
    ultimately show False
      using suffix_lines_differ [OF can sm(1,2), of b b] dec raw by simp
  next
    case 2
    then have "?y = NL # NL # b" by simp
    then show False using raw by (simp add: parse_raw_blank_first)
  next
    case 3
    then have b: "b \<noteq> []" using e len by auto
    have "length ?y \<le> length b + 1" using 3 by simp
    moreover have "body ?F = [] \<or> length (body ?F) + 2 \<le> length ?y"
      using raw by (rule parse_raw_body_short)
    ultimately show False using b by simp
  qed
qed

lemma map_of_rev_distinct: "distinct (map fst h) \<Longrightarrow> map_of (rev h) = map_of h"
proof -
  assume "distinct (map fst h)"
  moreover from this have "distinct (map fst (rev h))"
    by (simp only: rev_map [symmetric] distinct_rev)
  ultimately show ?thesis
    by (subst map_of_inject_set) simp_all
qed

lemma canonical_round_trip:
  assumes "canonical_frame c h b"
  shows "parseFrames (frame_text c h b) = [\<lparr>command = c, headers = map_of h, body = b\<rparr>]"
proof -
  let ?raw = "join [NL] (c # map header_line h) @ [NL, NL] @ b"
  have tr: "\<forall>(k, v) \<in> set h. trim k = k \<and> trim v = v"
    using assms by (fastforce simp: canonical_frame_def)
  then have same: "map (\<lambda>(k, v). (trim k, trim v)) h = h"
    by (auto intro!: map_idI)
  have "trim c \<noteq> []" "NL \<notin> set c"
    using assms by (simp_all add: canonical_frame_def)
  moreover have "\<forall>(k, v) \<in> set h. NL \<notin> set k \<and> CHR '':'' \<notin> set k \<and> trim k \<noteq> ''__proto__''
           \<and> NL \<notin> set v"
    using assms by (fastforce simp: canonical_frame_def)
  ultimately have "parse_raw ?raw = Some \<lparr>command = trim c,
                   headers = map_of (rev (map (\<lambda>(k, v). (trim k, trim v)) h)),
                   body = b\<rparr>"
    by (rule parse_raw_encoded)
  then have raw: "parse_raw ?raw = Some \<lparr>command = c, headers = map_of h, body = b\<rparr>"
    using assms by (simp add: same map_of_rev_distinct canonical_frame_def)
  have "split [NUL] ?raw = [?raw]"
    using canonical_text(2) [OF assms] by (rule split_char_notin)
  moreover have "split [NUL] (?raw @ NUL # []) = split [NUL] ?raw @ split [NUL] []"
    by (rule split_char_append)
  ultimately have "split [NUL] (?raw @ [NUL]) = [?raw, []]"
    by simp
  moreover have "parse_raw [] = None" by (simp add: parse_raw_def)
  ultimately show ?thesis
    using raw by (simp add: parseFrames_def frame_text_lines List.map_filter_simps)
qed

text \<open>A chunk that holds the whole text of a frame but its NUL decodes to the frame.\<close>

lemma unterminated_frame_decodes:
  assumes "canonical_frame c h b"
  shows "parseFrames (butlast (frame_text c h b))
           = [\<lparr>command = c, headers = map_of h, body = b\<rparr>]"
proof -
  let ?raw = "join [NL] (c # map header_line h) @ [NL, NL] @ b"
  have tr: "\<forall>(k, v) \<in> set h. trim k = k \<and> trim v = v"
    using assms by (fastforce simp: canonical_frame_def)
  then have same: "map (\<lambda>(k, v). (trim k, trim v)) h = h"
    by (auto intro!: map_idI)
  have "trim c \<noteq> []" "NL \<notin> set c"
    using assms by (simp_all add: canonical_frame_def)
  moreover have "\<forall>(k, v) \<in> set h. NL \<notin> set k \<and> CHR '':'' \<notin> set k \<and> trim k \<noteq> ''__proto__''
           \<and> NL \<notin> set v"
    using assms by (fastforce simp: canonical_frame_def)
  ultimately have "parse_raw ?raw = Some \<lparr>command = trim c,
                   headers = map_of (rev (map (\<lambda>(k, v). (trim k, trim v)) h)),
                   body = b\<rparr>"
    by (rule parse_raw_encoded)
  then have raw: "parse_raw ?raw = Some \<lparr>command = c, headers = map_of h, body = b\<rparr>"
    using assms by (simp add: same map_of_rev_distinct canonical_frame_def)
  have "split [NUL] ?raw = [?raw]"
    using canonical_text(2) [OF assms] by (rule split_char_notin)
  moreover have "butlast (frame_text c h b) = ?raw"
    by (simp add: frame_text_lines butlast_append)
  ultimately show ?thesis
    using raw by (simp add: parseFrames_def List.map_filter_simps)
qed

text \<open>
  C10: a frame encoded from a trimmed command, headers with distinct trimmed keys and
  trimmed values, and a body decodes to itself; when its text is cut into two non-empty
  chunks so that the first chunk ends before the terminating NUL, and for an empty body
  before the end of the last line of the command and the headers, the frame appears in
  the frames decoded from neither chunk.
\<close>

theorem split_frame_not_decoded:
  assumes "canonical_frame c h b"
    and "0 < i" and "i + 1 < length (frame_text c h b)"
    and "b = [] \<longrightarrow> i + 3 < length (frame_text c h b)"
  shows "parseFrames (frame_text c h b) = [\<lparr>command = c, headers = map_of h, body = b\<rparr>]
       \<and> \<lparr>command = c, headers = map_of h, body = b\<rparr>
            \<notin> set (parseFrames (take i (frame_text c h b)))
       \<and> \<lparr>command = c, headers = map_of h, body = b\<rparr>
            \<notin> set (parseFrames (drop i (frame_text c h b)))"
  using assms canonical_round_trip first_chunk_differs second_chunk_differs
  by blast

theorem split_frame_not_decoded_witness:
  "canonical_frame ''SEND'' [(''destination'', ''news'')] ''Hello''
   \<and> \<lparr>command = ''SEND'', headers = map_of [(''destination'', ''news'')], body = ''Hello''\<rparr>
        \<notin> set (parseFrames (take 9 (frame_text ''SEND'' [(''destination'', ''news'')] ''Hello'')))
   \<and> \<lparr>command = ''SEND'', headers = map_of [(''destination'', ''news'')], body = ''Hello''\<rparr>
        \<notin> set (parseFrames (drop 9 (frame_text ''SEND'' [(''destination'', ''news'')] ''Hello'')))"
proof -
  have can: "canonical_frame ''SEND'' [(''destination'', ''news'')] ''Hello''"
    by code_simp
  have i: "(0::nat) < 9"
    "9 + 1 < length (frame_text ''SEND'' [(''destination'', ''news'')] ''Hello'')"
    "''Hello'' = [] \<longrightarrow> 9 + 3 < length (frame_text ''SEND'' [(''destination'', ''news'')] ''Hello'')"
    by (simp_all add: frame_text_def)
  show ?thesis
    using split_frame_not_decoded [OF can i] can by blast
qed

lemma headers_only_chunk_decodes:
  assumes "canonical_frame c h []"
  shows "parseFrames (join [NL] (c # map header_line h))
           = [\<lparr>command = c, headers = map_of h, body = []\<rparr>]"
proof -
  let ?ls = "c # map header_line h"
  let ?L = "join [NL] ?ls"
  have "no_adjacent_NL (take (length ?L) (?L @ [NL]))"
    using no_blank_line_no_adjacent [OF canonical_text(1) [OF assms]]
    by (rule no_adjacent_take)
  then have "parse_raw ?L = decode_lines (split [NL] ?L) []"
    using parse_raw_no_adjacent [of ?L] by simp
  also have "split [NL] ?L = ?ls"
    using canonical_lines [OF assms] by (intro split_join_lines) auto
  also have "decode_lines ?ls [] = Some \<lparr>command = c, headers = map_of h, body = []\<rparr>"
    using assms canonical_headers [OF assms, of h Map.empty]
    by (simp add: decode_lines_def filter_id_conv map_of_rev_distinct canonical_frame_def)
  finally have raw: "parse_raw ?L = Some \<lparr>command = c, headers = map_of h, body = []\<rparr>" .
  have "NUL \<notin> set ?L"
    using canonical_text(2) [OF assms] by simp
  then have "split [NUL] ?L = [?L]" by (rule split_char_notin)
  moreover have "?L \<noteq> []"
    using assms by (simp add: join_Cons canonical_frame_def)
  ultimately show ?thesis
    using raw by (simp add: parseFrames_def List.map_filter_simps)
qed

text \<open>
  Cut right before its NUL, the frame is decoded from the first chunk; with an empty body
  this also holds for a cut right after the last header line; and a command with leading
  whitespace is decoded from the second chunk of a cut inside that whitespace.
\<close>

theorem split_before_NUL_decodes:
  "\<lparr>command = ''SEND'', headers = map_of [(''destination'', ''news'')], body = ''Hello''\<rparr>
     \<in> set (parseFrames (take 28 (frame_text ''SEND'' [(''destination'', ''news'')] ''Hello'')))
   \<and> (0::nat) < 28 \<and> 28 < length (frame_text ''SEND'' [(''destination'', ''news'')] ''Hello'')
   \<and> \<lparr>command = ''A'', headers = map_of [(''k'', ''v'')], body = []\<rparr>
     \<in> set (parseFrames (take 5 (frame_text ''A'' [(''k'', ''v'')] [])))
   \<and> (0::nat) < 5 \<and> 5 < length (frame_text ''A'' [(''k'', ''v'')] [])
   \<and> parseFrames (drop 1 (frame_text '' A'' [] [])) = parseFrames (frame_text '' A'' [] [])
   \<and> length (parseFrames (frame_text '' A'' [] [])) = 1"
proof -
  have can: "canonical_frame ''SEND'' [(''destination'', ''news'')] ''Hello''"
    by code_simp
  have "take 28 (frame_text ''SEND'' [(''destination'', ''news'')] ''Hello'')
          = butlast (frame_text ''SEND'' [(''destination'', ''news'')] ''Hello'')"
    by (simp add: frame_text_def)
  then have a: "\<lparr>command = ''SEND'', headers = map_of [(''destination'', ''news'')], body = ''Hello''\<rparr>
     \<in> set (parseFrames (take 28 (frame_text ''SEND'' [(''destination'', ''news'')] ''Hello'')))"
    using unterminated_frame_decodes [OF can] by simp
  have can2: "canonical_frame ''A'' [(''k'', ''v'')] []"
    by code_simp
  have "take 5 (frame_text ''A'' [(''k'', ''v'')] []) = join [NL] (''A'' # map header_line [(''k'', ''v'')])"
    by (simp add: frame_text_def header_line_def)
  then have b: "\<lparr>command = ''A'', headers = map_of [(''k'', ''v'')], body = []\<rparr>
     \<in> set (parseFrames (take 5 (frame_text ''A'' [(''k'', ''v'')] [])))"
    using headers_only_chunk_decodes [OF can2] by simp
  have c: "parseFrames (drop 1 (frame_text '' A'' [] [])) = parseFrames (frame_text '' A'' [] [])"
    "length (parseFrames (frame_text '' A'' [] [])) = 1"
    by (simp_all add: frame_text_def parseFrames_def parse_raw_def NL_def NUL_def
          List.map_filter_simps trim_def is_ws_def)
  show ?thesis
    using a b c by (simp add: frame_text_def)
qed

end
